theory Spec2Isabelle
  imports Main "HOL-Library.Word"
begin

unbundle bit_operations_syntax

section \<open>Capabilities and the captured register frame\<close>

text \<open>
  The error handler of the TCP/IP compartment runs on a CHERIoT core: every pointer is a
  capability, a 32-bit address with bounds and a validity tag. \<open>CHERI::Capability\<close> is
  a value wrapper around one pointer; \<open>is_valid()\<close> reads the tag, \<open>top()\<close> is
  \<open>base() + length()\<close>, and assigning to \<open>address()\<close> changes the wrapped pointer
  of that one \<open>Capability\<close> object. These types belong to the RTOS headers
  (\<open>cheri.hh\<close>, \<open>compartment.h\<close>, \<open>priv/riscv.h\<close>), which the handler includes.
\<close>

record Capability =
  cap_tag :: bool
  cap_base :: "32 word"
  cap_length :: "32 word"
  cap_address :: "32 word"

definition is_valid :: "Capability \<Rightarrow> bool" where
  "is_valid c = cap_tag c"

definition cap_top :: "Capability \<Rightarrow> 32 word" where
  "cap_top c = cap_base c + cap_length c"

text \<open>Address arithmetic on a pointer (\<open>&p->field\<close>): tag and bounds are those of \<open>p\<close>.\<close>

definition member_ptr :: "Capability \<Rightarrow> 32 word \<Rightarrow> Capability" where
  "member_ptr p off = p\<lparr>cap_address := cap_address p + off\<rparr>"

text \<open>\<open>CHERI::RegisterNumber\<close>, \<open>CHERI::CauseCode\<close> and \<open>priv::MCAUSE_CHERI\<close>.\<close>

definition CZR :: "32 word" where "CZR = 0"
definition CRA :: "32 word" where "CRA = 1"
definition CSP :: "32 word" where "CSP = 2"
definition CA5 :: "32 word" where "CA5 = 15"
definition PCC :: "32 word" where "PCC = 32"

definition CauseCode_None :: "32 word" where "CauseCode_None = 0"
definition BoundsViolation :: "32 word" where "BoundsViolation = 1"
definition TagViolation :: "32 word" where "TagViolation = 2"

definition MCAUSE_CHERI :: "32 word" where "MCAUSE_CHERI = 28"

text \<open>
  \<open>CHERI::extract_cheri_mtval\<close>: the low five bits of \<open>mtval\<close> are the exception
  code, the next six the number of the faulting register.
\<close>

definition extract_cheri_mtval :: "32 word \<Rightarrow> 32 word \<times> 32 word" where
  "extract_cheri_mtval mtval = (mtval AND 31, drop_bit 5 mtval AND 63)"

text \<open>
  \<open>ErrorState\<close>: the program counter capability and the fifteen saved registers
  \<open>registers[0..14]\<close> (CRA to CA5; the zero register is not saved).
\<close>

record ErrorState =
  pcc :: Capability
  registers :: "nat \<Rightarrow> Capability"

text \<open>
  The handler reads registers through two overloads. The templated
  \<open>get_register_value<R>()\<close> yields the saved value of register \<open>R\<close> (lines 352 and
  354 wrap it and read its address). The overload taking the register number as an argument
  yields a pointer to the register's slot in the frame, or null: line 383 dereferences it
  with \<open>*\<close>, and the comment at line 372 says that for CZR it returns a null pointer
  "which we cannot dereference".
\<close>

definition get_register_value_tmpl :: "ErrorState \<Rightarrow> 32 word \<Rightarrow> Capability" where
  "get_register_value_tmpl frame r = registers frame (unat r - 1)"

datatype slot = PccSlot | RegisterSlot nat

definition get_register_value :: "32 word \<Rightarrow> slot option" where
  "get_register_value r =
     (if CZR < r \<and> r \<le> CA5 then Some (RegisterSlot (unat r - 1))
      else if r = PCC then Some PccSlot
      else None)"

definition read_slot :: "ErrorState \<Rightarrow> slot \<Rightarrow> Capability" where
  "read_slot frame sl = (case sl of PccSlot \<Rightarrow> pcc frame | RegisterSlot i \<Rightarrow> registers frame i)"

text \<open>
  The pointer to a slot is the frame pointer moved to the slot: \<open>pcc\<close> is the first
  member, \<open>registers[i]\<close> follows at eight bytes per capability.
\<close>

definition slot_ptr :: "Capability \<Rightarrow> slot \<Rightarrow> Capability" where
  "slot_ptr framePtr sl =
     (case sl of PccSlot \<Rightarrow> member_ptr framePtr 0
      | RegisterSlot i \<Rightarrow> member_ptr framePtr (8 * (of_nat i + 1)))"

datatype ErrorRecoveryBehaviour = InstallContext | ForceUnwind

section \<open>Shared state of the compartment\<close>

text \<open>
  Modelled from the spec: the restart state word and its flags are declared in
  \<open>tcpip-internal.h\<close>, which is not among the sources; the spec gives
  \<open>NotRestarting = 0\<close>, \<open>Restarting = 1\<close>, \<open>IpThreadKicked = 2\<close>.
\<close>

definition NotRestarting :: "8 word" where "NotRestarting = 0"
definition Restarting :: "8 word" where "Restarting = 1"
definition IpThreadKicked :: "8 word" where "IpThreadKicked = 2"

text \<open>
  Modelled from the spec: a lock of the RTOS (\<open>FlagLockState\<close>,
  \<open>FlagLockPriorityInherited\<close>) is seen by the handler through its owner and its
  destruction mode; the all-zero lock is free and not in destruction mode. A lock that was
  upgraded for destruction grants ownership to nobody: an acquisition returns with a failure
  (which the handler ignores). An acquisition of a lock held by another thread waits for the
  release; \<open>None\<close> stands for a wait that never ends.
\<close>

record FlagLockState =
  lock_owner :: "16 word"
  lock_destruct :: bool

definition zeroed_lock :: FlagLockState where
  "zeroed_lock = \<lparr>lock_owner = 0, lock_destruct = False\<rparr>"

definition get_owner_thread_id :: "FlagLockState \<Rightarrow> 16 word" where
  "get_owner_thread_id l = lock_owner l"

definition flaglock_unlock :: "FlagLockState \<Rightarrow> FlagLockState" where
  "flaglock_unlock l = l\<lparr>lock_owner := 0\<rparr>"

definition flaglock_upgrade_for_destruction :: "FlagLockState \<Rightarrow> FlagLockState" where
  "flaglock_upgrade_for_destruction l = l\<lparr>lock_destruct := True\<rparr>"

definition flaglock_lock :: "bool \<Rightarrow> 16 word \<Rightarrow> FlagLockState \<Rightarrow> FlagLockState option" where
  "flaglock_lock released t l =
     (if lock_destruct l then Some l
      else if lock_owner l = 0 \<or> released then Some (l\<lparr>lock_owner := t\<rparr>)
      else None)"

record RecursiveMutexState =
  rm_lock :: FlagLockState
  rm_depth :: "16 word"

text \<open>
  Modelled from the spec: \<open>SealedSocket\<close> and the ring \<open>sealedSockets\<close> are declared
  in \<open>tcpip-internal.h\<close>, which is not among the sources; the spec describes a node as
  owning a lock and a handle to an event primitive. A node as the walk of lines 203 to 238
  uses it: \<open>cell\<close> is the pointer through which the node is reached (the
  \<open>cell_next\<close> of its predecessor), \<open>socket\<close> the \<open>FreeRTOS_Socket_t *\<close> stored in
  the node, and \<open>xEventGroup\<close> the event group handle stored in the socket that
  \<open>socket\<close> points to. The lock of a node is a member of the node; what the walk does to
  it is recorded in the trace.
\<close>

record ring_entry =
  cell :: Capability
  socket :: Capability
  xEventGroup :: Capability

datatype log_arg = ArgWord "32 word" | ArgInt int | ArgCap Capability | ArgNull

datatype load_site = DrainTest | DrainLog | AssertTest

datatype lock_name =
    ListLock
  | SocketLock "32 word"
  | CriticalSection
  | Suspend
  | IpThreadLock

text \<open>
  What the handler does to the world outside its own variables is recorded, in order, in a
  trace: log lines, accesses to the atomics, operations on locks, and calls of the RTOS and
  of the network stack. A load of \<open>userThreadCount\<close> is recorded with the statement that
  made it: the test of the drain loop (line 261), the log line in its body (line 267), or
  the assertion of Phase 3 (line 303).
\<close>

datatype event =
    Log string "log_arg list"
  | UserThreadCountDec
  | UserThreadCountLoad load_site "8 word"
  | CompareExchange "8 word" bool
  | RestartStateOr "8 word"
  | SocketEpochInc
  | Unlock lock_name
  | Lock lock_name
  | UpgradeForDestruction lock_name
  | Reinit lock_name
  | EventGroupDestroyForce Capability
  | RingReset
  | QueueDestroy
  | HeapFreeAll
  | FreeBufferManagerMemory
  | ThreadSleep
  | NetworkRestart

record net_state =
  currentSocketEpoch :: "32 word"
  userThreadCount :: "8 word"
  restartState :: "8 word"
  networkThreadID :: "16 word"
  sealedSocketsListLock :: FlagLockState
  sealedSockets :: "ring_entry list"
  CriticalSectionFlagLock :: RecursiveMutexState
  SuspendFlagLock :: RecursiveMutexState
  ipThreadLockState :: FlagLockState
  trace :: "event list"

text \<open>
  What the rest of the system contributes to one run of the handler: whether a foreign holder
  of the list lock releases it, the value of \<open>userThreadCount\<close> found after each sleep of
  the drain loop, the status returned by \<open>queue_destroy\<close>, whether the network thread
  releases its startup lock, the address of \<open>ip_thread_entry\<close>, and the offset of
  \<open>socketLock\<close> from the ring cell inside a \<open>SealedSocket\<close>.
\<close>

record env =
  holderReleasesListLock :: bool
  countAfterSleep :: "8 word list"
  queueDestroyResult :: int
  ipThreadReleasesLock :: bool
  ip_thread_entry :: Capability
  socketLockOffset :: "32 word"

text \<open>
  A run that does not return: a load through an untagged capability traps, a failed
  \<open>Assert\<close> traps, and a wait may never end.
\<close>

datatype stop = CapabilityTrap | AssertionTrap | Blocked

type_synonym result = "(stop \<times> net_state) + net_state"

definition emit :: "event \<Rightarrow> net_state \<Rightarrow> net_state" where
  "emit e s = s\<lparr>trace := trace s @ [e]\<rparr>"

definition log :: "string \<Rightarrow> log_arg list \<Rightarrow> net_state \<Rightarrow> net_state" where
  "log msg args s = emit (Log msg args) s"

definition free_compartment_memory :: "net_state \<Rightarrow> net_state" where
  "free_compartment_memory s = emit FreeBufferManagerMemory (emit HeapFreeAll s)"

section \<open>The reset orchestrator\<close>

text \<open>
  \<open>reset_network_stack_state\<close>, lines 103 to 331, in the order of the source. The
  argument \<open>tid\<close> is the value of \<open>thread_id_get()\<close>.
\<close>

text \<open>Phase 1, lines 107 to 136: bookkeeping and the forced unlock of the list lock.\<close>

definition phase1 :: "16 word \<Rightarrow> net_state \<Rightarrow> net_state" where
  "phase1 tid s =
     (let IsUserThread = (tid \<noteq> networkThreadID s);
          s1 = (if IsUserThread
                then (let s' = log ''User thread TCP/IP stack error handler called!'' [] s
                      in emit UserThreadCountDec (s'\<lparr>userThreadCount := userThreadCount s' - 1\<rparr>))
                else log ''Network thread TCP/IP stack error handler called!'' [] s)
      in if get_owner_thread_id (sealedSocketsListLock s1) = tid
         then (let s2 = log ''The sealed sockets lock was held by the crashing thread. Forcefully unlocking it.'' [] s1
               in emit (Unlock ListLock)
                    (s2\<lparr>sealedSocketsListLock := flaglock_unlock (sealedSocketsListLock s2)\<rparr>))
         else s1)"

text \<open>
  \<open>std::atomic::compare_exchange_strong\<close> on a variable holding \<open>cur\<close>: success and
  the new value of the variable when it holds \<open>expected\<close>, else failure, the variable
  unchanged; the third component is the value left in \<open>expected\<close>.
\<close>

definition compare_exchange_strong :: "8 word \<Rightarrow> 8 word \<Rightarrow> 8 word \<Rightarrow> bool \<times> 8 word \<times> 8 word" where
  "compare_exchange_strong cur expected desired =
     (if cur = expected then (True, desired, expected) else (False, cur, cur))"

text \<open>Lines 145 to 163: the gate was lost.\<close>

definition gate_lost :: "16 word \<Rightarrow> 8 word \<Rightarrow> net_state \<Rightarrow> net_state" where
  "gate_lost tid expected s =
     (let IsIpThread = (tid = networkThreadID s)
      in if IsIpThread \<and> (expected AND IpThreadKicked) \<noteq> 0
         then log ''The network thread crashed while restarting. This may be unrecoverable.'' [] s
         else s)"

text \<open>Lines 168 to 190: take the list lock and upgrade it for destruction.\<close>

definition phase2_list_lock :: "env \<Rightarrow> 16 word \<Rightarrow> net_state \<Rightarrow> result" where
  "phase2_list_lock e tid s =
     (let s1 = log ''Resetting the network stack.'' [] s;
          s2 = log ''Acquiring the sealed sockets lock.'' [] s1
      in case flaglock_lock (holderReleasesListLock e) tid (sealedSocketsListLock s2) of
           None \<Rightarrow> Inl (Blocked, s2)
         | Some l \<Rightarrow>
             (let s3 = emit (Lock ListLock) (s2\<lparr>sealedSocketsListLock := l\<rparr>);
                  s4 = log ''Setting the sealed sockets list lock for destruction.'' [] s3
              in Inr (emit (UpgradeForDestruction ListLock)
                        (s4\<lparr>sealedSocketsListLock :=
                              flaglock_upgrade_for_destruction (sealedSocketsListLock s4)\<rparr>))))"

text \<open>
  Lines 203 to 238: the loop over the ring, one node per step. \<open>lock\<close> is
  \<open>&(socket->socketLock)\<close> with \<open>socket = SealedSocket::from_ring(cell)\<close>: an address
  computed from \<open>cell\<close>, carrying the tag of \<open>cell\<close>. Line 219 then loads
  \<open>socket->socket\<close> through that same pointer, whatever the tag said; a load through an
  untagged capability traps. \<open>s->xEventGroup\<close> is loaded only under the guard
  \<open>Capability{s}.is_valid()\<close>, and line 237 loads \<open>cell->cell_next()\<close>.
\<close>

definition visit_lock :: "env \<Rightarrow> ring_entry \<Rightarrow> net_state \<Rightarrow> net_state" where
  "visit_lock e n s =
     (let lock = member_ptr (cell n) (socketLockOffset e)
      in if is_valid lock
         then emit (UpgradeForDestruction (SocketLock (cap_address lock)))
                (log ''Destroying socket lock {}.'' [ArgCap lock] s)
         else log ''Ignoring corrupted socket lock {}.'' [ArgCap lock] s)"

definition visit_socket :: "ring_entry \<Rightarrow> net_state \<Rightarrow> net_state" where
  "visit_socket n s =
     (if is_valid (socket n) \<and> is_valid (xEventGroup n)
      then emit (EventGroupDestroyForce (xEventGroup n))
             (log ''Destroying event group {}.'' [ArgCap (xEventGroup n)] s)
      else log ''Ignoring corrupted socket {}.'' [ArgCap (socket n)] s)"

fun walk :: "env \<Rightarrow> ring_entry list \<Rightarrow> net_state \<Rightarrow> result" where
  "walk e [] s = Inr s"
| "walk e (n # ns) s =
     (let s1 = visit_lock e n s
      in if \<not> is_valid (cell n) then Inl (CapabilityTrap, s1)
         else walk e ns (visit_socket n s1))"

text \<open>Lines 241 to 257: the reset of the ring, and the locks that are not in the ring.\<close>

definition phase2_globals :: "env \<Rightarrow> net_state \<Rightarrow> net_state" where
  "phase2_globals e s =
     (let s1 = log ''Resetting the sealed sockets list.'' [] s;
          s2 = emit RingReset (s1\<lparr>sealedSockets := []\<rparr>);
          s3 = log ''Upgrading critical sections for destruction.'' [] s2;
          s4 = emit (UpgradeForDestruction CriticalSection)
                 (s3\<lparr>CriticalSectionFlagLock := (CriticalSectionFlagLock s3)
                       \<lparr>rm_lock := flaglock_upgrade_for_destruction
                                      (rm_lock (CriticalSectionFlagLock s3))\<rparr>\<rparr>);
          s5 = emit (UpgradeForDestruction Suspend)
                 (s4\<lparr>SuspendFlagLock := (SuspendFlagLock s4)
                       \<lparr>rm_lock := flaglock_upgrade_for_destruction
                                      (rm_lock (SuspendFlagLock s4))\<rparr>\<rparr>);
          s6 = log ''Upgrading the message queue for destruction.'' [] s5;
          s7 = emit QueueDestroy s6;
          err = queueDestroyResult e
      in if err \<noteq> 0
         then log ''Failed to upgrade the message queue for destruction (error {}).''
                [ArgInt err] s7
         else s7)"

text \<open>Lines 198 to 257: the walk, then the rest.\<close>

definition phase2_destroy :: "env \<Rightarrow> net_state \<Rightarrow> result" where
  "phase2_destroy e s =
     (let s1 = log ''Setting socket locks for destruction and destroying event groups.'' [] s
      in case walk e (sealedSockets s1) s1 of
           Inl x \<Rightarrow> Inl x
         | Inr s2 \<Rightarrow> Inr (phase2_globals e s2))"

text \<open>
  Lines 261 to 281: the drain loop. Each test of the loop loads \<open>userThreadCount\<close>; the
  body logs, frees the heap and sleeps, and after the sleep the counter holds the next
  value of \<open>countAfterSleep\<close>. A run whose list of values ends before the counter is
  zero has not left the loop.
\<close>

definition drain_body :: "8 word \<Rightarrow> net_state \<Rightarrow> net_state" where
  "drain_body v s =
     (let s1 = emit (UserThreadCountLoad DrainLog (userThreadCount s)) s;
          s2 = log ''Waiting for {} user thread(s) to terminate.'' [ArgWord (ucast (userThreadCount s1))] s1;
          s3 = free_compartment_memory s2;
          s4 = emit ThreadSleep s3
      in s4\<lparr>userThreadCount := v\<rparr>)"

fun drain_loop :: "8 word list \<Rightarrow> net_state \<Rightarrow> result" where
  "drain_loop [] s =
     (let s1 = emit (UserThreadCountLoad DrainTest (userThreadCount s)) s
      in if userThreadCount s \<noteq> 0 then Inl (Blocked, s1) else Inr s1)"
| "drain_loop (v # vs) s =
     (let s1 = emit (UserThreadCountLoad DrainTest (userThreadCount s)) s
      in if userThreadCount s \<noteq> 0 then drain_loop vs (drain_body v s1) else Inr s1)"

text \<open>Lines 285 to 295: a user thread waits for the network thread's startup lock.\<close>

definition wait_for_ip_thread :: "env \<Rightarrow> 16 word \<Rightarrow> net_state \<Rightarrow> result" where
  "wait_for_ip_thread e tid s =
     (if tid \<noteq> networkThreadID s
      then (let s1 = log ''Waiting for the IP thread to reset.'' [] s
            in case flaglock_lock (ipThreadReleasesLock e) tid (ipThreadLockState s1) of
                 None \<Rightarrow> Inl (Blocked, s1)
               | Some l \<Rightarrow>
                   (let s2 = emit (Lock IpThreadLock) (s1\<lparr>ipThreadLockState := l\<rparr>)
                    in Inr (emit (Unlock IpThreadLock)
                              (s2\<lparr>ipThreadLockState := flaglock_unlock (ipThreadLockState s2)\<rparr>))))
      else Inr s)"

text \<open>Phase 3, lines 303 to 327.\<close>

definition phase3 :: "net_state \<Rightarrow> result" where
  "phase3 s =
     (let s0 = emit (UserThreadCountLoad AssertTest (userThreadCount s)) s
      in if userThreadCount s \<noteq> 0 then Inl (AssertionTrap, s0)
         else
           (let s1 = log ''Freeing heap memory.'' [] s0;
                s2 = free_compartment_memory s1;
                s3 = emit SocketEpochInc (s2\<lparr>currentSocketEpoch := currentSocketEpoch s2 + 1\<rparr>);
                s4 = emit (Reinit CriticalSection)
                       (s3\<lparr>CriticalSectionFlagLock := \<lparr>rm_lock = zeroed_lock, rm_depth = 0\<rparr>\<rparr>);
                s5 = emit (Reinit Suspend)
                       (s4\<lparr>SuspendFlagLock := \<lparr>rm_lock = zeroed_lock, rm_depth = 0\<rparr>\<rparr>);
                s6 = emit (Reinit ListLock) (s5\<lparr>sealedSocketsListLock := zeroed_lock\<rparr>);
                s7 = log ''Restarting the network stack.'' [] s6;
                s8 = emit (RestartStateOr IpThreadKicked)
                       (s7\<lparr>restartState := restartState s7 OR IpThreadKicked\<rparr>)
            in Inr (emit NetworkRestart s8)))"

text \<open>Sequencing of steps that may not return.\<close>

definition andThen :: "result \<Rightarrow> (net_state \<Rightarrow> result) \<Rightarrow> result" where
  "andThen r f = (case r of Inl x \<Rightarrow> Inl x | Inr s \<Rightarrow> f s)"

definition phases23 :: "env \<Rightarrow> 16 word \<Rightarrow> net_state \<Rightarrow> result" where
  "phases23 e tid s =
     andThen (phase2_list_lock e tid s) (\<lambda>s1.
     andThen (phase2_destroy e s1) (\<lambda>s2.
     andThen (drain_loop (countAfterSleep e) (log ''Waiting for all threads to exit.'' [] s2)) (\<lambda>s3.
     andThen (wait_for_ip_thread e tid s3) phase3)))"

definition reset_network_stack_state :: "env \<Rightarrow> 16 word \<Rightarrow> net_state \<Rightarrow> result" where
  "reset_network_stack_state e tid s =
     (let s1 = phase1 tid s;
          (won, cur, expected) = compare_exchange_strong (restartState s1) NotRestarting Restarting;
          s2 = emit (CompareExchange expected won) (s1\<lparr>restartState := cur\<rparr>)
      in if \<not> won then Inr (gate_lost tid expected s2)
         else phases23 e tid s2)"

section \<open>The fault handler\<close>

text \<open>
  \<open>compartment_error_handler\<close>, lines 335 to 435. \<open>framePtr\<close> is the pointer
  \<open>frame\<close> itself, \<open>frame\<close> what it points to. The handler returns the recovery
  behaviour, the frame as it leaves it, and the state.
\<close>

definition is_thread_exit :: "ErrorState \<Rightarrow> 32 word \<Rightarrow> bool" where
  "is_thread_exit frame mtval =
     (let (exceptionCode, registerNumber) = extract_cheri_mtval mtval;
          stackCapability = get_register_value_tmpl frame CSP;
          returnCapability = get_register_value_tmpl frame CRA
      in registerNumber = CRA \<and> cap_address returnCapability = 0 \<and>
         exceptionCode = TagViolation \<and> cap_top stackCapability = cap_address stackCapability)"

text \<open>
  Lines 397 to 414, the network thread after the reset. \<open>stack\<close> wraps the pointer to
  the CSP slot of the frame; line 405 moves the address of this local object to its base;
  nothing is stored through it. Line 411 stores to \<open>frame->pcc\<close>.
\<close>

definition reinstall_ip_thread ::
  "env \<Rightarrow> Capability \<Rightarrow> ErrorState \<Rightarrow> net_state \<Rightarrow> ErrorState \<times> net_state" where
  "reinstall_ip_thread e framePtr frame s =
     (let stack = slot_ptr framePtr (the (get_register_value CSP));
          s1 = log ''Resetting the stack from {} -> {}.''
                 [ArgWord (cap_address stack), ArgWord (cap_base stack)] s;
          stack' = stack\<lparr>cap_address := cap_base stack\<rparr>;
          s2 = log ''Stack length is {}.'' [ArgWord (cap_length stack')] s1;
          s3 = log ''Reinstalling context to ip_thread_entry.'' [] s2
      in (frame\<lparr>pcc := ip_thread_entry e\<rparr>, s3))"

type_synonym handler_result =
  "(stop \<times> net_state) + (ErrorRecoveryBehaviour \<times> ErrorState \<times> net_state)"

definition handle_corruption ::
  "env \<Rightarrow> 16 word \<Rightarrow> Capability \<Rightarrow> ErrorState \<Rightarrow> 32 word \<Rightarrow> net_state \<Rightarrow> handler_result" where
  "handle_corruption e threadID framePtr frame mtval s =
     (let (exceptionCode, registerNumber) = extract_cheri_mtval mtval
      in if registerNumber \<noteq> CZR \<and> get_register_value registerNumber = None
         then Inl (CapabilityTrap, s)
         else
           (let s1 = log ''{} error at {} (return address: {}), with capability register {}: {} by thread {}''
                       [ArgWord exceptionCode, ArgCap (pcc frame),
                        ArgCap (get_register_value_tmpl frame CRA), ArgWord registerNumber,
                        (if registerNumber = CZR then ArgNull
                         else ArgCap (read_slot frame (the (get_register_value registerNumber)))),
                        ArgWord (ucast threadID)] s
            in case reset_network_stack_state e threadID s1 of
                 Inl x \<Rightarrow> Inl x
               | Inr s2 \<Rightarrow>
                   if threadID = networkThreadID s2
                   then (let (frame', s3) = reinstall_ip_thread e framePtr frame s2
                         in Inr (InstallContext, frame', s3))
                   else Inr (ForceUnwind, frame,
                             log ''Rewinding crashed user thread {}.'' [ArgWord (ucast threadID)] s2)))"

definition compartment_error_handler ::
  "env \<Rightarrow> 16 word \<Rightarrow> Capability \<Rightarrow> ErrorState \<Rightarrow> 32 word \<Rightarrow> 32 word \<Rightarrow> net_state
     \<Rightarrow> handler_result" where
  "compartment_error_handler e threadID framePtr frame mcause mtval s =
     (if mcause = MCAUSE_CHERI
      then (if is_thread_exit frame mtval
            then Inr (ForceUnwind, frame,
                      log ''Thread exit CSP={}, PCC={}''
                        [ArgCap (get_register_value_tmpl frame CSP), ArgCap (pcc frame)] s)
            else if fst (extract_cheri_mtval mtval) = CauseCode_None
            then Inr (InstallContext, frame, s)
            else handle_corruption e threadID framePtr frame mtval s)
      else (let s1 = log ''Unhandled error {} at {} by thread {}''
                       [ArgWord mcause, ArgCap (pcc frame), ArgWord (ucast threadID)] s;
                stack = slot_ptr framePtr (the (get_register_value CSP))
            in Inr (ForceUnwind, frame, log ''Stack length is {}.'' [ArgWord (cap_length stack)] s1)))"

section \<open>Concurrent callers\<close>

text \<open>
  Several threads may be in \<open>reset_network_stack_state\<close> at once, on the same variables.
  Each caller is at one of the places where the function touches \<open>restartState\<close>: before
  Phase 1, at the \<open>compare_exchange_strong\<close> of line 144, past it in Phases 2 and 3
  (whose only access is the \<open>|=\<close> of line 326), or out of the function: completed,
  stopped by a trap or a wait without end, or returned after Phase 1 with the value the
  exchange observed. The accesses are atomic and take effect one after the other; a
  schedule names, step by step, the caller that moves next.
\<close>

datatype caller =
    AtEntry
  | AtGate
  | InPhases23
  | Completed
  | Stopped stop
  | ReturnedAfterPhase1 "8 word"

record system =
  shared :: net_state
  callers :: "(16 word \<times> caller) list"

definition gate_step :: "16 word \<Rightarrow> net_state \<Rightarrow> caller \<times> net_state" where
  "gate_step tid s =
     (let (won, cur, expected) = compare_exchange_strong (restartState s) NotRestarting Restarting;
          s2 = emit (CompareExchange expected won) (s\<lparr>restartState := cur\<rparr>)
      in if \<not> won then (ReturnedAfterPhase1 expected, gate_lost tid expected s2)
         else (InPhases23, s2))"

definition phases23_step :: "env \<Rightarrow> 16 word \<Rightarrow> net_state \<Rightarrow> caller \<times> net_state" where
  "phases23_step e tid s =
     (case phases23 e tid s of
        Inl x \<Rightarrow> (Stopped (fst x), snd x)
      | Inr s' \<Rightarrow> (Completed, s'))"

definition caller_step :: "env \<Rightarrow> nat \<Rightarrow> system \<Rightarrow> system" where
  "caller_step e i c =
     (if i < length (callers c)
      then (let tid = fst (callers c ! i);
                (pc, s) = (case snd (callers c ! i) of
                             AtEntry \<Rightarrow> (AtGate, phase1 tid (shared c))
                           | AtGate \<Rightarrow> gate_step tid (shared c)
                           | InPhases23 \<Rightarrow> phases23_step e tid (shared c)
                           | Completed \<Rightarrow> (Completed, shared c)
                           | Stopped x \<Rightarrow> (Stopped x, shared c)
                           | ReturnedAfterPhase1 v \<Rightarrow> (ReturnedAfterPhase1 v, shared c))
            in \<lparr>shared = s, callers = (callers c)[i := (tid, pc)]\<rparr>)
      else c)"

definition run_schedule :: "env \<Rightarrow> nat list \<Rightarrow> system \<Rightarrow> system" where
  "run_schedule e sched c = fold (caller_step e) sched c"

definition initial_system :: "net_state \<Rightarrow> 16 word list \<Rightarrow> system" where
  "initial_system s tids = \<lparr>shared = s, callers = map (\<lambda>tid. (tid, AtEntry)) tids\<rparr>"

fun before_gate :: "caller \<Rightarrow> bool" where
  "before_gate AtEntry = True"
| "before_gate AtGate = True"
| "before_gate x = False"

fun is_winner :: "caller \<Rightarrow> bool" where
  "is_winner InPhases23 = True"
| "is_winner Completed = True"
| "is_winner (Stopped x) = True"
| "is_winner x = False"

definition winners :: "system \<Rightarrow> nat" where
  "winners c = length (filter (\<lambda>p. is_winner (snd p)) (callers c))"

text \<open>
  What holds of every reachable system: while \<open>restartState\<close> is \<open>NotRestarting\<close>
  every caller is before the gate; once it is not, exactly one caller is past the gate; and
  the value a returned caller observed is not \<open>NotRestarting\<close>.
\<close>

definition gate_inv :: "system \<Rightarrow> bool" where
  "gate_inv c =
     ((restartState (shared c) = NotRestarting \<longrightarrow>
         (\<forall>p \<in> set (callers c). before_gate (snd p))) \<and>
      (restartState (shared c) \<noteq> NotRestarting \<longrightarrow> winners c = 1) \<and>
      (\<forall>p \<in> set (callers c). snd p \<noteq> ReturnedAfterPhase1 NotRestarting))"

section \<open>Reading the trace\<close>

text \<open>
  The events a run adds to the trace. An event is quiet when it is not an access to the
  epoch or to the restart state and not the restart of the stack; the events of the drain
  loop are its loads of the counter and its sleeps.
\<close>

definition new_events :: "net_state \<Rightarrow> net_state \<Rightarrow> event list" where
  "new_events s s' = drop (length (trace s)) (trace s')"

fun quiet_event :: "event \<Rightarrow> bool" where
  "quiet_event SocketEpochInc = False"
| "quiet_event NetworkRestart = False"
| "quiet_event (RestartStateOr v) = False"
| "quiet_event (CompareExchange v b) = False"
| "quiet_event ev = True"

fun drain_event :: "event \<Rightarrow> bool" where
  "drain_event (UserThreadCountLoad DrainTest v) = True"
| "drain_event (UserThreadCountLoad DrainLog v) = True"
| "drain_event ThreadSleep = True"
| "drain_event ev = False"

fun restart_state_event :: "event \<Rightarrow> bool" where
  "restart_state_event (RestartStateOr v) = True"
| "restart_state_event (CompareExchange v b) = True"
| "restart_state_event ev = False"

definition quiet_step :: "net_state \<Rightarrow> net_state \<Rightarrow> bool" where
  "quiet_step s s' =
     ((\<exists>evs. trace s' = trace s @ evs \<and> list_all quiet_event evs) \<and>
      currentSocketEpoch s' = currentSocketEpoch s \<and> restartState s' = restartState s \<and>
      networkThreadID s' = networkThreadID s)"

definition quiet_result :: "net_state \<Rightarrow> result \<Rightarrow> bool" where
  "quiet_result s r = (case r of Inl (x, s') \<Rightarrow> quiet_step s s' | Inr s' \<Rightarrow> quiet_step s s')"

text \<open>The events of Phase 3, in the order of lines 303 to 327.\<close>

definition phase3_events :: "event list" where
  "phase3_events =
     [UserThreadCountLoad AssertTest 0, Log ''Freeing heap memory.'' [], HeapFreeAll,
      FreeBufferManagerMemory, SocketEpochInc, Reinit CriticalSection, Reinit Suspend,
      Reinit ListLock, Log ''Restarting the network stack.'' [],
      RestartStateOr IpThreadKicked, NetworkRestart]"

text \<open>The events of a call that returns after Phase 1.\<close>

fun phase1_event :: "event \<Rightarrow> bool" where
  "phase1_event (Log msg args) = True"
| "phase1_event UserThreadCountDec = True"
| "phase1_event (Unlock ListLock) = True"
| "phase1_event (CompareExchange v False) = True"
| "phase1_event ev = False"

definition returned :: "result \<Rightarrow> bool" where
  "returned r = (case r of Inl x \<Rightarrow> False | Inr s \<Rightarrow> True)"

definition final_state :: "result \<Rightarrow> net_state" where
  "final_state r = (case r of Inl x \<Rightarrow> snd x | Inr s \<Rightarrow> s)"

definition handler_returned :: "handler_result \<Rightarrow> (ErrorRecoveryBehaviour \<times> ErrorState) option" where
  "handler_returned r = (case r of Inl x \<Rightarrow> None | Inr y \<Rightarrow> Some (fst y, fst (snd y)))"

section \<open>Concrete inputs\<close>

definition ex_cap :: "32 word \<Rightarrow> Capability" where
  "ex_cap a = \<lparr>cap_tag = True, cap_base = a, cap_length = 64, cap_address = a\<rparr>"

definition ex_untagged :: Capability where
  "ex_untagged = \<lparr>cap_tag = False, cap_base = 0, cap_length = 0, cap_address = 0\<rparr>"

definition ex_env :: env where
  "ex_env = \<lparr>holderReleasesListLock = True, countAfterSleep = [0], queueDestroyResult = 0,
             ipThreadReleasesLock = True, ip_thread_entry = ex_cap 4096, socketLockOffset = 16\<rparr>"

text \<open>An idle compartment: network thread 1, no user thread inside, an empty ring.\<close>

definition ex_idle :: net_state where
  "ex_idle = \<lparr>currentSocketEpoch = 7, userThreadCount = 0, restartState = NotRestarting,
              networkThreadID = 1, sealedSocketsListLock = zeroed_lock, sealedSockets = [],
              CriticalSectionFlagLock = \<lparr>rm_lock = zeroed_lock, rm_depth = 0\<rparr>,
              SuspendFlagLock = \<lparr>rm_lock = zeroed_lock, rm_depth = 0\<rparr>,
              ipThreadLockState = \<lparr>lock_owner = 1, lock_destruct = False\<rparr>, trace = []\<rparr>"

text \<open>
  A frame whose stack pointer is inside a stack of 1024 bytes at 8192, neither at its base
  nor at its top.
\<close>

definition ex_frame :: ErrorState where
  "ex_frame = \<lparr>pcc = ex_cap 100,
               registers = (\<lambda>i. if i = 1
                                then \<lparr>cap_tag = True, cap_base = 8192, cap_length = 1024,
                                       cap_address = 9000\<rparr>
                                else ex_untagged)\<rparr>"

definition ex_last_epoch :: net_state where
  "ex_last_epoch = ex_idle\<lparr>currentSocketEpoch := 0xFFFFFFFF\<rparr>"

definition ex_restarting :: net_state where
  "ex_restarting = ex_idle\<lparr>restartState := Restarting, userThreadCount := 2\<rparr>"

text \<open>A frame at the end of a thread's entry point: CRA is null, the stack is empty.\<close>

definition ex_exit_frame :: ErrorState where
  "ex_exit_frame = \<lparr>pcc = ex_cap 100,
               registers = (\<lambda>i. if i = 1
                                then \<lparr>cap_tag = True, cap_base = 8192, cap_length = 1024,
                                       cap_address = 9216\<rparr>
                                else ex_untagged)\<rparr>"

text \<open>
  Nodes of the ring: one reached through an untagged pointer, one whose socket pointer is
  untagged, one intact.
\<close>

definition ex_poisoned_node :: ring_entry where
  "ex_poisoned_node = \<lparr>cell = ex_untagged, socket = ex_cap 512, xEventGroup = ex_cap 768\<rparr>"

definition ex_closed_node :: ring_entry where
  "ex_closed_node = \<lparr>cell = ex_cap 1024, socket = ex_untagged, xEventGroup = ex_cap 1536\<rparr>"

definition ex_healthy_node :: ring_entry where
  "ex_healthy_node = \<lparr>cell = ex_cap 2048, socket = ex_cap 2304, xEventGroup = ex_cap 2560\<rparr>"

definition ex_poisoned_ring :: net_state where
  "ex_poisoned_ring = ex_idle\<lparr>sealedSockets := [ex_poisoned_node, ex_healthy_node]\<rparr>"

text \<open>The idle compartment with two user threads inside.\<close>

definition ex_two_users :: net_state where
  "ex_two_users = ex_idle\<lparr>userThreadCount := 2\<rparr>"

section \<open>Steps that leave the epoch and the restart state alone\<close>

lemma quiet_step_refl: "quiet_step s s"
  by (simp add: quiet_step_def)

lemma quiet_step_trans: "quiet_step s s1 \<Longrightarrow> quiet_step s1 s2 \<Longrightarrow> quiet_step s s2"
  by (auto simp: quiet_step_def)

lemma quiet_phase1: "quiet_step s (phase1 tid s)"
  by (simp add: phase1_def Let_def quiet_step_def emit_def log_def)

lemma quiet_gate_lost: "quiet_step s (gate_lost tid x s)"
  by (simp add: gate_lost_def Let_def quiet_step_def emit_def log_def)

lemma quiet_phase2_list_lock: "quiet_result s (phase2_list_lock e tid s)"
  by (simp add: phase2_list_lock_def quiet_result_def Let_def quiet_step_def emit_def log_def
           split: option.split)

lemma quiet_visit_lock: "quiet_step s (visit_lock e n s)"
  by (simp add: visit_lock_def Let_def quiet_step_def emit_def log_def)

lemma quiet_visit_socket: "quiet_step s (visit_socket n s)"
  by (simp add: visit_socket_def Let_def quiet_step_def emit_def log_def)

lemma quiet_walk: "quiet_result s (walk e ns s)"
proof (induction ns arbitrary: s)
  case Nil
  show ?case by (simp add: quiet_result_def quiet_step_refl)
next
  case (Cons n ns)
  have a: "quiet_step s (visit_lock e n s)" by (rule quiet_visit_lock)
  have b: "quiet_step s (visit_socket n (visit_lock e n s))"
    by (rule quiet_step_trans [OF a quiet_visit_socket])
  show ?case
  proof (cases "is_valid (cell n)")
    case False
    then show ?thesis using a by (simp add: quiet_result_def Let_def)
  next
    case True
    have "quiet_result (visit_socket n (visit_lock e n s)) (walk e ns (visit_socket n (visit_lock e n s)))"
      by (rule Cons.IH)
    then show ?thesis using True b
      by (auto simp: quiet_result_def Let_def split: sum.splits intro: quiet_step_trans)
  qed
qed

lemma quiet_phase2_globals: "quiet_step s (phase2_globals e s)"
  by (simp add: phase2_globals_def Let_def quiet_step_def emit_def log_def)

lemma quiet_phase2_destroy: "quiet_result s (phase2_destroy e s)"
proof -
  let ?s1 = "log ''Setting socket locks for destruction and destroying event groups.'' [] s"
  have a: "quiet_step s ?s1" by (simp add: quiet_step_def log_def emit_def)
  have w: "quiet_result ?s1 (walk e (sealedSockets ?s1) ?s1)" by (rule quiet_walk)
  show ?thesis
  proof (cases "walk e (sealedSockets ?s1) ?s1")
    case (Inl x)
    then show ?thesis using a w
      by (auto simp: phase2_destroy_def quiet_result_def Let_def split: prod.splits
               intro: quiet_step_trans)
  next
    case (Inr s2)
    then have "quiet_step s s2" using a w
      by (auto simp: quiet_result_def intro: quiet_step_trans)
    then have "quiet_step s (phase2_globals e s2)"
      by (rule quiet_step_trans [OF _ quiet_phase2_globals])
    then show ?thesis using Inr
      by (simp add: phase2_destroy_def quiet_result_def Let_def)
  qed
qed

lemma quiet_wait_for_ip_thread: "quiet_result s (wait_for_ip_thread e tid s)"
  by (simp add: wait_for_ip_thread_def quiet_result_def Let_def quiet_step_def emit_def log_def
           split: option.split)

lemma wait_for_ip_thread_no_drain:
  "wait_for_ip_thread e tid s = Inr s' \<Longrightarrow>
   \<exists>evs. trace s' = trace s @ evs \<and> list_all quiet_event evs \<and> \<not> list_ex drain_event evs"
  by (auto simp: wait_for_ip_thread_def Let_def emit_def log_def
           split: option.splits if_splits)

lemma quiet_drain_body: "quiet_step s (drain_body v s)"
  by (simp add: drain_body_def Let_def quiet_step_def emit_def log_def free_compartment_memory_def)

lemma drain_loop_Inr:
  "drain_loop vs s = Inr s' \<Longrightarrow>
   (\<exists>evs. trace s' = trace s @ evs @ [UserThreadCountLoad DrainTest 0] \<and>
          list_all quiet_event evs) \<and>
   currentSocketEpoch s' = currentSocketEpoch s \<and> restartState s' = restartState s \<and>
   networkThreadID s' = networkThreadID s \<and> userThreadCount s' = 0"
proof (induction vs arbitrary: s)
  case Nil
  then show ?case by (auto simp: Let_def emit_def split: if_splits)
next
  case (Cons v vs)
  show ?case
  proof (cases "userThreadCount s = 0")
    case True
    then show ?thesis using Cons.prems by (auto simp: Let_def emit_def)
  next
    case False
    let ?s1 = "emit (UserThreadCountLoad DrainTest (userThreadCount s)) s"
    let ?s2 = "drain_body v ?s1"
    have r: "drain_loop vs ?s2 = Inr s'" using Cons.prems False by (simp add: Let_def)
    have q: "quiet_step s ?s2"
      by (rule quiet_step_trans [OF _ quiet_drain_body]) (simp add: quiet_step_def emit_def)
    from Cons.IH [OF r] q show ?thesis
      by (auto simp: quiet_step_def)
  qed
qed


lemma phase3_Inr:
  "phase3 s = Inr s' \<Longrightarrow>
   trace s' = trace s @ phase3_events \<and>
   currentSocketEpoch s' = currentSocketEpoch s + 1 \<and>
   restartState s' = restartState s OR IpThreadKicked \<and>
   networkThreadID s' = networkThreadID s"
  by (auto simp: phase3_def phase3_events_def Let_def emit_def log_def free_compartment_memory_def
           split: if_splits)

lemma phase3_Inl:
  "phase3 s = Inl (x, s') \<Longrightarrow> quiet_step s s'"
  by (auto simp: phase3_def Let_def emit_def quiet_step_def split: if_splits)

lemma quiet_drain_loop: "quiet_result s (drain_loop vs s)"
proof (induction vs arbitrary: s)
  case Nil
  show ?case by (simp add: quiet_result_def quiet_step_def Let_def emit_def)
next
  case (Cons v vs)
  let ?s1 = "emit (UserThreadCountLoad DrainTest (userThreadCount s)) s"
  have q: "quiet_step s (drain_body v ?s1)"
    by (rule quiet_step_trans [OF _ quiet_drain_body]) (simp add: quiet_step_def emit_def)
  show ?case
  proof (cases "userThreadCount s = 0")
    case True
    then show ?thesis by (simp add: quiet_result_def quiet_step_def Let_def emit_def)
  next
    case False
    then show ?thesis using Cons.IH [of "drain_body v ?s1"] q
      by (auto simp: quiet_result_def Let_def split: sum.splits intro: quiet_step_trans)
  qed
qed

lemma phases23_Inr:
  assumes "phases23 e tid s = Inr s'"
  shows "(\<exists>pre mid. trace s' = trace s @ pre @ [UserThreadCountLoad DrainTest 0] @ mid @ phase3_events \<and>
            list_all quiet_event pre \<and> list_all quiet_event mid \<and> \<not> list_ex drain_event mid) \<and>
         currentSocketEpoch s' = currentSocketEpoch s + 1 \<and>
         restartState s' = restartState s OR IpThreadKicked \<and>
         networkThreadID s' = networkThreadID s"
proof -
  let ?w = "log ''Waiting for all threads to exit.'' []"
  from assms obtain s1 s2 s3 s4 where
    1: "phase2_list_lock e tid s = Inr s1" and
    2: "phase2_destroy e s1 = Inr s2" and
    3: "drain_loop (countAfterSleep e) (?w s2) = Inr s3" and
    4: "wait_for_ip_thread e tid s3 = Inr s4" and
    5: "phase3 s4 = Inr s'"
    by (auto simp: phases23_def andThen_def split: sum.splits)
  have q1: "quiet_step s s1" using quiet_phase2_list_lock [of s e tid] 1
    by (simp add: quiet_result_def)
  have q2: "quiet_step s1 s2" using quiet_phase2_destroy [of s1 e] 2
    by (simp add: quiet_result_def)
  have q3: "quiet_step s2 (?w s2)"
    by (simp add: quiet_step_def log_def emit_def)
  have q: "quiet_step s (?w s2)"
    by (rule quiet_step_trans [OF quiet_step_trans [OF q1 q2] q3])
  have q4: "quiet_step s3 s4" using quiet_wait_for_ip_thread [of s3 e tid] 4
    by (simp add: quiet_result_def)
  from q obtain a where a: "trace (?w s2) = trace s @ a" "list_all quiet_event a"
    by (auto simp: quiet_step_def)
  from drain_loop_Inr [OF 3] obtain b where
    b: "trace s3 = trace (?w s2) @ b @ [UserThreadCountLoad DrainTest 0]" "list_all quiet_event b"
    by auto
  from wait_for_ip_thread_no_drain [OF 4] obtain c where
    c: "trace s4 = trace s3 @ c" "list_all quiet_event c" "\<not> list_ex drain_event c"
    by auto
  have t: "trace s' = trace s @ (a @ b) @ [UserThreadCountLoad DrainTest 0] @ c @ phase3_events"
    using phase3_Inr [OF 5] a b c by simp
  have "\<exists>pre mid. trace s' = trace s @ pre @ [UserThreadCountLoad DrainTest 0] @ mid @ phase3_events \<and>
            list_all quiet_event pre \<and> list_all quiet_event mid \<and> \<not> list_ex drain_event mid"
    using t a(2) b(2) c(2) c(3) by (intro exI [of _ "a @ b"] exI [of _ c]) simp
  moreover have "currentSocketEpoch s' = currentSocketEpoch s + 1"
    using q drain_loop_Inr [OF 3] q4 phase3_Inr [OF 5] by (simp add: quiet_step_def)
  moreover have "restartState s' = restartState s OR IpThreadKicked"
    using q drain_loop_Inr [OF 3] q4 phase3_Inr [OF 5] by (simp add: quiet_step_def)
  moreover have "networkThreadID s' = networkThreadID s"
    using q drain_loop_Inr [OF 3] q4 phase3_Inr [OF 5] by (simp add: quiet_step_def)
  ultimately show ?thesis by blast
qed

lemma phases23_Inl:
  assumes "phases23 e tid s = Inl (x, s')"
  shows "quiet_step s s'"
proof -
  let ?w = "log ''Waiting for all threads to exit.'' []"
  from assms consider
      (a) "phase2_list_lock e tid s = Inl (x, s')"
    | (b) s1 where "phase2_list_lock e tid s = Inr s1" "phase2_destroy e s1 = Inl (x, s')"
    | (c) s1 s2 where "phase2_list_lock e tid s = Inr s1" "phase2_destroy e s1 = Inr s2"
        "drain_loop (countAfterSleep e) (?w s2) = Inl (x, s')"
    | (d) s1 s2 s3 where "phase2_list_lock e tid s = Inr s1" "phase2_destroy e s1 = Inr s2"
        "drain_loop (countAfterSleep e) (?w s2) = Inr s3" "wait_for_ip_thread e tid s3 = Inl (x, s')"
    | (f) s1 s2 s3 s4 where "phase2_list_lock e tid s = Inr s1" "phase2_destroy e s1 = Inr s2"
        "drain_loop (countAfterSleep e) (?w s2) = Inr s3" "wait_for_ip_thread e tid s3 = Inr s4"
        "phase3 s4 = Inl (x, s')"
    by (auto simp: phases23_def andThen_def split: sum.splits)
  then show ?thesis
  proof cases
    case a
    then show ?thesis using quiet_phase2_list_lock [of s e tid] by (simp add: quiet_result_def)
  next
    case b
    then show ?thesis
      using quiet_phase2_list_lock [of s e tid] quiet_phase2_destroy [of s1 e]
      by (auto simp: quiet_result_def intro: quiet_step_trans)
  next
    case c
    have "quiet_step s2 (?w s2)" by (simp add: quiet_step_def log_def emit_def)
    then show ?thesis
      using c quiet_phase2_list_lock [of s e tid] quiet_phase2_destroy [of s1 e]
        quiet_drain_loop [of "?w s2" "countAfterSleep e"]
      by (simp add: quiet_result_def) (meson quiet_step_trans)
  next
    case d
    have "quiet_step s2 (?w s2)" by (simp add: quiet_step_def log_def emit_def)
    then show ?thesis
      using d quiet_phase2_list_lock [of s e tid] quiet_phase2_destroy [of s1 e]
        quiet_drain_loop [of "?w s2" "countAfterSleep e"] quiet_wait_for_ip_thread [of s3 e tid]
      by (simp add: quiet_result_def) (meson quiet_step_trans)
  next
    case f
    have "quiet_step s2 (?w s2)" by (simp add: quiet_step_def log_def emit_def)
    then show ?thesis
      using f quiet_phase2_list_lock [of s e tid] quiet_phase2_destroy [of s1 e]
        quiet_drain_loop [of "?w s2" "countAfterSleep e"] quiet_wait_for_ip_thread [of s3 e tid]
        phase3_Inl [of s4 x s']
      by (simp add: quiet_result_def) (meson quiet_step_trans)
  qed
qed

lemma quiet_not_restart_state: "list_all quiet_event evs \<Longrightarrow> filter restart_state_event evs = []"
proof (induction evs)
  case Nil
  show ?case by simp
next
  case (Cons ev evs)
  then show ?case by (cases ev) simp_all
qed

lemma quiet_not_special:
  "list_all quiet_event evs \<Longrightarrow> SocketEpochInc \<notin> set evs \<and> NetworkRestart \<notin> set evs"
  by (induction evs) auto

lemma restartState_phase1: "restartState (phase1 tid s) = restartState s"
  using quiet_phase1 [of s tid] by (simp add: quiet_step_def)

lemma reset_won:
  assumes "restartState s = NotRestarting"
  shows "reset_network_stack_state e tid s =
           phases23 e tid (emit (CompareExchange NotRestarting True)
                             ((phase1 tid s)\<lparr>restartState := Restarting\<rparr>))"
  using assms
  by (simp add: reset_network_stack_state_def compare_exchange_strong_def Let_def
        restartState_phase1)

lemma reset_lost:
  assumes "restartState s \<noteq> NotRestarting"
  shows "reset_network_stack_state e tid s =
           Inr (gate_lost tid (restartState s)
                  (emit (CompareExchange (restartState s) False) (phase1 tid s)))"
proof -
  have "(phase1 tid s)\<lparr>restartState := restartState (phase1 tid s)\<rparr> = phase1 tid s"
    by simp
  then have eq: "(phase1 tid s)\<lparr>restartState := restartState s\<rparr> = phase1 tid s"
    by (simp only: restartState_phase1)
  have "reset_network_stack_state e tid s =
          Inr (gate_lost tid (restartState s)
                 (emit (CompareExchange (restartState s) False)
                    ((phase1 tid s)\<lparr>restartState := restartState s\<rparr>)))"
    using assms
    by (simp add: reset_network_stack_state_def compare_exchange_strong_def Let_def
          restartState_phase1)
  then show ?thesis by (simp only: eq)
qed

lemma gate_won_step:
  "\<exists>p1. trace (emit (CompareExchange NotRestarting True) ((phase1 tid s)\<lparr>restartState := Restarting\<rparr>)) =
           trace s @ p1 @ [CompareExchange NotRestarting True] \<and> list_all quiet_event p1"
  using quiet_phase1 [of s tid] by (auto simp: quiet_step_def emit_def)

lemma gate_won_fields:
  "currentSocketEpoch (emit (CompareExchange NotRestarting True) ((phase1 tid s)\<lparr>restartState := Restarting\<rparr>)) = currentSocketEpoch s"
  "networkThreadID (emit (CompareExchange NotRestarting True) ((phase1 tid s)\<lparr>restartState := Restarting\<rparr>)) = networkThreadID s"
  "restartState (emit (CompareExchange NotRestarting True) ((phase1 tid s)\<lparr>restartState := Restarting\<rparr>)) = Restarting"
  using quiet_phase1 [of s tid] by (simp_all add: quiet_step_def emit_def)

text \<open>The shape of the trace of a call that wins the gate and returns.\<close>

lemma reset_won_Inr:
  assumes w: "restartState s = NotRestarting" and r: "reset_network_stack_state e tid s = Inr s'"
  shows "(\<exists>p1 pre mid. trace s' = trace s @ p1 @ [CompareExchange NotRestarting True] @ pre @
                           [UserThreadCountLoad DrainTest 0] @ mid @ phase3_events \<and>
            list_all quiet_event p1 \<and> list_all quiet_event pre \<and> list_all quiet_event mid \<and>
            \<not> list_ex drain_event mid) \<and>
         currentSocketEpoch s' = currentSocketEpoch s + 1 \<and>
         restartState s' = Restarting OR IpThreadKicked \<and>
         networkThreadID s' = networkThreadID s"
proof -
  let ?g = "emit (CompareExchange NotRestarting True) ((phase1 tid s)\<lparr>restartState := Restarting\<rparr>)"
  have p: "phases23 e tid ?g = Inr s'" using reset_won [OF w, of e tid] r by simp
  from gate_won_step [of tid s] obtain p1 where
    p1: "trace ?g = trace s @ p1 @ [CompareExchange NotRestarting True]" "list_all quiet_event p1"
    by blast
  from phases23_Inr [OF p] obtain pre mid where
    pm: "trace s' = trace ?g @ pre @ [UserThreadCountLoad DrainTest 0] @ mid @ phase3_events"
      "list_all quiet_event pre" "list_all quiet_event mid" "\<not> list_ex drain_event mid"
    by blast
  have "\<exists>p1 pre mid. trace s' = trace s @ p1 @ [CompareExchange NotRestarting True] @ pre @
                           [UserThreadCountLoad DrainTest 0] @ mid @ phase3_events \<and>
            list_all quiet_event p1 \<and> list_all quiet_event pre \<and> list_all quiet_event mid \<and>
            \<not> list_ex drain_event mid"
    using p1 pm by (intro exI [of _ p1] exI [of _ pre] exI [of _ mid]) simp
  then show ?thesis using phases23_Inr [OF p] gate_won_fields [of tid s] by simp
qed

lemma reset_lost_Inr:
  assumes l: "restartState s \<noteq> NotRestarting" and r: "reset_network_stack_state e tid s = Inr s'"
  shows "(\<exists>p1 p2. trace s' = trace s @ p1 @ [CompareExchange (restartState s) False] @ p2 \<and>
            list_all quiet_event p1 \<and> list_all quiet_event p2) \<and>
         currentSocketEpoch s' = currentSocketEpoch s \<and>
         restartState s' = restartState s \<and>
         networkThreadID s' = networkThreadID s"
proof -
  let ?c = "emit (CompareExchange (restartState s) False) (phase1 tid s)"
  have s': "s' = gate_lost tid (restartState s) ?c"
    using reset_lost [OF l, of e tid] r by simp
  from quiet_phase1 [of s tid] obtain p1 where
    p1: "trace (phase1 tid s) = trace s @ p1" "list_all quiet_event p1"
    by (auto simp: quiet_step_def)
  from quiet_gate_lost [of ?c tid "restartState s"] obtain p2 where
    p2: "trace s' = trace ?c @ p2" "list_all quiet_event p2"
    by (auto simp: quiet_step_def s')
  have "trace s' = trace s @ p1 @ [CompareExchange (restartState s) False] @ p2"
    using p1 p2 by (simp add: emit_def)
  then have "\<exists>p1 p2. trace s' = trace s @ p1 @ [CompareExchange (restartState s) False] @ p2 \<and>
            list_all quiet_event p1 \<and> list_all quiet_event p2"
    using p1(2) p2(2) by blast
  moreover have "currentSocketEpoch s' = currentSocketEpoch s \<and> restartState s' = restartState s \<and>
         networkThreadID s' = networkThreadID s"
    using quiet_phase1 [of s tid] quiet_gate_lost [of ?c tid "restartState s"]
    by (simp add: quiet_step_def s' emit_def)
  ultimately show ?thesis by blast
qed

lemma reset_Inr_frame:
  assumes "reset_network_stack_state e tid s = Inr s'"
  shows "networkThreadID s' = networkThreadID s \<and> (\<exists>evs. trace s' = trace s @ evs)"
proof (cases "restartState s = NotRestarting")
  case True
  from reset_won_Inr [OF True assms] show ?thesis by auto
next
  case False
  from reset_lost_Inr [OF False assms] show ?thesis by auto
qed


lemmas model_defs =
  reset_network_stack_state_def phase1_def compare_exchange_strong_def gate_lost_def
  phases23_def andThen_def phase2_list_lock_def phase2_destroy_def phase2_globals_def
  visit_lock_def visit_socket_def drain_body_def wait_for_ip_thread_def phase3_def
  free_compartment_memory_def log_def emit_def Let_def
  flaglock_lock_def flaglock_unlock_def flaglock_upgrade_for_destruction_def zeroed_lock_def
  get_owner_thread_id_def is_valid_def member_ptr_def
  NotRestarting_def Restarting_def IpThreadKicked_def

lemmas example_defs = ex_env_def ex_idle_def ex_cap_def ex_untagged_def

lemma new_events_append: "trace s' = trace s @ evs \<Longrightarrow> new_events s s' = evs"
  by (simp add: new_events_def)

lemma word32_le_succ: "(x :: 32 word) \<noteq> - 1 \<Longrightarrow> x \<le> x + 1"
  by (meson inc_less_eq_triv_imp nle_le)

lemma ex_idle_run:
  "reset_network_stack_state ex_env 1 ex_idle =
     Inr (ex_idle\<lparr>currentSocketEpoch := 8, restartState := 3,
            trace := [Log ''Network thread TCP/IP stack error handler called!'' [],
                      CompareExchange 0 True,
                      Log ''Resetting the network stack.'' [],
                      Log ''Acquiring the sealed sockets lock.'' [],
                      Lock ListLock,
                      Log ''Setting the sealed sockets list lock for destruction.'' [],
                      UpgradeForDestruction ListLock,
                      Log ''Setting socket locks for destruction and destroying event groups.'' [],
                      Log ''Resetting the sealed sockets list.'' [],
                      RingReset,
                      Log ''Upgrading critical sections for destruction.'' [],
                      UpgradeForDestruction CriticalSection,
                      UpgradeForDestruction Suspend,
                      Log ''Upgrading the message queue for destruction.'' [],
                      QueueDestroy,
                      Log ''Waiting for all threads to exit.'' [],
                      UserThreadCountLoad DrainTest 0] @ phase3_events\<rparr>)"
  by (simp add: model_defs example_defs phase3_events_def)

lemma restart_bits: "(Restarting OR IpThreadKicked) AND Restarting = Restarting"
  by (simp add: Restarting_def IpThreadKicked_def)

section \<open>The corruption branch of the handler\<close>

lemma handle_corruption_Inr:
  assumes "handle_corruption e threadID framePtr frame mtval s = Inr (b, frame', s')"
  shows "(\<exists>args evs.
            trace s' = trace s @
              Log ''{} error at {} (return address: {}), with capability register {}: {} by thread {}'' args # evs) \<and>
         (if threadID = networkThreadID s
          then b = InstallContext \<and> frame' = frame\<lparr>pcc := ip_thread_entry e\<rparr>
          else b = ForceUnwind \<and> frame' = frame)"
proof -
  let ?m = "''{} error at {} (return address: {}), with capability register {}: {} by thread {}''"
  obtain exceptionCode registerNumber where x: "extract_cheri_mtval mtval = (exceptionCode, registerNumber)"
    by (cases "extract_cheri_mtval mtval")
  let ?args = "[ArgWord exceptionCode, ArgCap (pcc frame),
                        ArgCap (get_register_value_tmpl frame CRA), ArgWord registerNumber,
                        (if registerNumber = CZR then ArgNull
                         else ArgCap (read_slot frame (the (get_register_value registerNumber)))),
                        ArgWord (ucast threadID)]"
  let ?s1 = "log ?m ?args s"
  from assms x obtain s2 where
    r: "reset_network_stack_state e threadID ?s1 = Inr s2" and
    k: "(if threadID = networkThreadID s2
         then (let (frame', s3) = reinstall_ip_thread e framePtr frame s2
               in Inr (InstallContext, frame', s3))
         else Inr (ForceUnwind, frame,
                   log ''Rewinding crashed user thread {}.'' [ArgWord (ucast threadID)] s2))
        = (Inr (b, frame', s') :: handler_result)"
    by (auto simp: handle_corruption_def Let_def split: if_splits sum.splits)
  from reset_Inr_frame [OF r] obtain evs where
    n: "networkThreadID s2 = networkThreadID s" and t: "trace s2 = trace s @ Log ?m ?args # evs"
    by (auto simp: log_def emit_def)
  show ?thesis
  proof (cases "threadID = networkThreadID s")
    case True
    then have "b = InstallContext \<and> frame' = frame\<lparr>pcc := ip_thread_entry e\<rparr> \<and>
               (\<exists>evs'. trace s' = trace s2 @ evs')"
      using k n by (auto simp: reinstall_ip_thread_def Let_def log_def emit_def)
    then show ?thesis using True t by auto
  next
    case False
    then have "b = ForceUnwind \<and> frame' = frame \<and> (\<exists>evs'. trace s' = trace s2 @ evs')"
      using k n by (auto simp: log_def emit_def)
    then show ?thesis using False t by auto
  qed
qed

lemma is_thread_exit_iff:
  "is_thread_exit frame mtval \<longleftrightarrow>
   (snd (extract_cheri_mtval mtval) = CRA \<and>
    cap_address (get_register_value_tmpl frame CRA) = 0 \<and>
    fst (extract_cheri_mtval mtval) = TagViolation \<and>
    cap_top (get_register_value_tmpl frame CSP) = cap_address (get_register_value_tmpl frame CSP))"
  by (simp add: is_thread_exit_def Let_def case_prod_beta)

section \<open>The walk at an untagged cell\<close>

lemma walk_traps_at_untagged_cell:
  assumes "n \<in> set ns" and "\<not> is_valid (cell n)"
  shows "\<exists>s'. walk e ns s = Inl (CapabilityTrap, s') \<and> sealedSockets s' = sealedSockets s"
  using assms
proof (induction ns arbitrary: s)
  case Nil
  then show ?case by simp
next
  case (Cons m ns)
  have k: "sealedSockets (visit_socket m (visit_lock e m s)) = sealedSockets s"
          "sealedSockets (visit_lock e m s) = sealedSockets s"
    by (simp_all add: visit_socket_def visit_lock_def Let_def log_def emit_def)
  show ?case
  proof (cases "is_valid (cell m)")
    case False
    then show ?thesis using k by (simp add: Let_def)
  next
    case True
    then have "n \<in> set ns" using Cons.prems by auto
    from Cons.IH [OF this Cons.prems(2), of "visit_socket m (visit_lock e m s)"] True k
    show ?thesis by (simp add: Let_def)
  qed
qed

text \<open>
  Over a ring whose cells are all tagged the walk returns, having visited every node; and the
  assertion of Phase 3 cannot fail after the drain loop has read zero.
\<close>

lemma walk_returns_when_cells_tagged:
  "list_all (\<lambda>n. is_valid (cell n)) ns \<Longrightarrow>
   walk e ns s = Inr (fold (\<lambda>n s. visit_socket n (visit_lock e n s)) ns s)"
  by (induction ns arbitrary: s) (simp_all add: Let_def)

lemma userThreadCount_wait_for_ip_thread:
  "wait_for_ip_thread e tid s = Inr s' \<Longrightarrow> userThreadCount s' = userThreadCount s"
  by (auto simp: wait_for_ip_thread_def Let_def emit_def log_def split: if_splits option.splits)

lemma assertion_holds_after_drain:
  "phases23 e tid s \<noteq> Inl (AssertionTrap, s')"
proof
  let ?w = "log ''Waiting for all threads to exit.'' []"
  assume a: "phases23 e tid s = Inl (AssertionTrap, s')"
  have n1: "phase2_list_lock e tid s \<noteq> Inl (AssertionTrap, s')"
    by (auto simp: phase2_list_lock_def Let_def split: option.splits)
  have w: "\<And>ns t. walk e ns t \<noteq> Inl (AssertionTrap, s')"
  proof -
    fix ns t show "walk e ns t \<noteq> Inl (AssertionTrap, s')"
      by (induction ns arbitrary: t) (simp_all add: Let_def)
  qed
  have n2: "\<And>t. phase2_destroy e t \<noteq> Inl (AssertionTrap, s')"
    using w by (auto simp: phase2_destroy_def Let_def split: sum.splits)
  have n3: "\<And>vs t. drain_loop vs t \<noteq> Inl (AssertionTrap, s')"
  proof -
    fix vs t show "drain_loop vs t \<noteq> Inl (AssertionTrap, s')"
      by (induction vs arbitrary: t) (simp_all add: Let_def)
  qed
  have n4: "\<And>t. wait_for_ip_thread e tid t \<noteq> Inl (AssertionTrap, s')"
    by (auto simp: wait_for_ip_thread_def Let_def split: option.splits)
  from a n1 n2 n3 n4 obtain s1 s2 s3 s4 where
    3: "drain_loop (countAfterSleep e) (?w s2) = Inr s3" and
    4: "wait_for_ip_thread e tid s3 = Inr s4" and
    5: "phase3 s4 = Inl (AssertionTrap, s')"
    by (auto simp: phases23_def andThen_def split: sum.splits)
  have "userThreadCount s4 = 0"
    using drain_loop_Inr [OF 3] userThreadCount_wait_for_ip_thread [OF 4] by simp
  then show False using 5 by (simp add: phase3_def Let_def)
qed

section \<open>The invariant of the gate\<close>

lemma filter_update_count:
  "i < length xs \<Longrightarrow>
   length (filter P (xs[i := y])) + (if P (xs ! i) then 1 else 0) =
   length (filter P xs) + (if P y then 1 else 0)"
proof (induction xs arbitrary: i)
  case Nil
  then show ?case by simp
next
  case (Cons x xs)
  show ?case
  proof (cases i)
    case 0
    then show ?thesis by simp
  next
    case (Suc j)
    then have "j < length xs" using Cons.prems by simp
    from Cons.IH [OF this] Suc show ?thesis by simp
  qed
qed

lemma no_winner_before_gate:
  "\<forall>p \<in> set xs. before_gate (snd p) \<Longrightarrow> filter (\<lambda>p. is_winner (snd p)) xs = []"
proof (induction xs)
  case Nil
  show ?case by simp
next
  case (Cons p xs)
  then have "before_gate (snd p)" by simp
  then have "\<not> is_winner (snd p)" by (cases "snd p") simp_all
  then show ?case using Cons by simp
qed

lemma in_update: "p \<in> set (xs[i := y]) \<Longrightarrow> p \<in> set xs \<or> p = y"
  using set_update_subset_insert [of xs i y] by auto

lemma kicked_not_zero: "(w :: 8 word) OR IpThreadKicked \<noteq> NotRestarting"
proof
  assume "w OR IpThreadKicked = NotRestarting"
  then have "IpThreadKicked = (0 :: 8 word)"
    by (simp add: NotRestarting_def or_eq_0_iff)
  then show False by (simp add: IpThreadKicked_def)
qed

lemma gate_step_cases:
  "(restartState s = NotRestarting \<and> fst (gate_step tid s) = InPhases23 \<and>
      restartState (snd (gate_step tid s)) = Restarting) \<or>
   (restartState s \<noteq> NotRestarting \<and> fst (gate_step tid s) = ReturnedAfterPhase1 (restartState s) \<and>
      restartState (snd (gate_step tid s)) = restartState s)"
  using quiet_gate_lost [of "emit (CompareExchange (restartState s) False) s" tid "restartState s"]
  by (auto simp: gate_step_def compare_exchange_strong_def Let_def emit_def quiet_step_def)

lemma phases23_step_cases:
  "(fst (phases23_step e tid s) = Completed \<and>
      restartState (snd (phases23_step e tid s)) = restartState s OR IpThreadKicked) \<or>
   ((\<exists>x. fst (phases23_step e tid s) = Stopped x) \<and>
      restartState (snd (phases23_step e tid s)) = restartState s)"
proof (cases "phases23 e tid s")
  case (Inl y)
  obtain x s' where y: "y = (x, s')" by (cases y)
  from phases23_Inl [OF Inl [unfolded y]] show ?thesis
    using Inl y by (simp add: phases23_step_def quiet_step_def)
next
  case (Inr s')
  from phases23_Inr [OF Inr] show ?thesis using Inr by (simp add: phases23_step_def)
qed

lemma gate_inv_initial: "restartState s = NotRestarting \<Longrightarrow> gate_inv (initial_system s tids)"
  by (auto simp: gate_inv_def initial_system_def winners_def no_winner_before_gate)


lemma caller_step_out_of_range: "\<not> i < length (callers c) \<Longrightarrow> caller_step e i c = c"
  by (simp add: caller_step_def)

lemma gate_inv_update:
  assumes inv: "gate_inv c" and i: "i < length (callers c)"
    and old: "snd (callers c ! i) = pc"
    and ok: "(before_gate pc \<and> before_gate pc' \<and> restartState s' = restartState (shared c)) \<or>
             (before_gate pc \<and> is_winner pc' \<and> restartState (shared c) = NotRestarting \<and>
                restartState s' \<noteq> NotRestarting) \<or>
             (before_gate pc \<and> pc' = ReturnedAfterPhase1 (restartState (shared c)) \<and>
                restartState (shared c) \<noteq> NotRestarting \<and> restartState s' = restartState (shared c)) \<or>
             (is_winner pc \<and> is_winner pc' \<and> restartState s' \<noteq> NotRestarting)"
  shows "gate_inv \<lparr>shared = s', callers = (callers c)[i := (tid, pc')]\<rparr>"
proof -
  let ?P = "\<lambda>p. is_winner (snd p)"
  let ?xs = "callers c" and ?ys = "(callers c)[i := (tid, pc')]"
  have cnt: "length (filter ?P ?ys) + (if is_winner pc then 1 else 0) =
             length (filter ?P ?xs) + (if is_winner pc' then 1 else 0)"
    using filter_update_count [OF i, of ?P "(tid, pc')"] old by simp
  have mem: "\<And>p. p \<in> set ?ys \<Longrightarrow> p \<in> set ?xs \<or> p = (tid, pc')"
    by (rule in_update)
  have bw: "\<And>x. before_gate x \<Longrightarrow> \<not> is_winner x"
  proof -
    fix x show "before_gate x \<Longrightarrow> \<not> is_winner x" by (cases x) simp_all
  qed
  have wb: "\<And>x. is_winner x \<Longrightarrow> x \<noteq> ReturnedAfterPhase1 NotRestarting \<and> \<not> before_gate x"
  proof -
    fix x show "is_winner x \<Longrightarrow> x \<noteq> ReturnedAfterPhase1 NotRestarting \<and> \<not> before_gate x"
      by (cases x) simp_all
  qed
  have bl: "\<And>x. before_gate x \<Longrightarrow> x \<noteq> ReturnedAfterPhase1 NotRestarting"
  proof -
    fix x show "before_gate x \<Longrightarrow> x \<noteq> ReturnedAfterPhase1 NotRestarting" by (cases x) simp_all
  qed
  have nth: "callers c ! i \<in> set (callers c)" using i by simp
  from ok consider
      (stay) "before_gate pc" "before_gate pc'" "restartState s' = restartState (shared c)"
    | (win) "before_gate pc" "is_winner pc'" "restartState (shared c) = NotRestarting"
        "restartState s' \<noteq> NotRestarting"
    | (lose) "before_gate pc" "pc' = ReturnedAfterPhase1 (restartState (shared c))"
        "restartState (shared c) \<noteq> NotRestarting" "restartState s' = restartState (shared c)"
    | (on) "is_winner pc" "is_winner pc'" "restartState s' \<noteq> NotRestarting"
    by blast
  then show ?thesis
  proof cases
    case stay
    have a: "restartState s' = NotRestarting \<longrightarrow> (\<forall>p \<in> set ?ys. before_gate (snd p))"
      using inv stay mem by (fastforce simp: gate_inv_def)
    have b: "restartState s' \<noteq> NotRestarting \<longrightarrow> length (filter ?P ?ys) = 1"
      using inv stay cnt bw by (simp add: gate_inv_def winners_def)
    have c: "\<forall>p \<in> set ?ys. snd p \<noteq> ReturnedAfterPhase1 NotRestarting"
      using inv stay(2) mem bl by (fastforce simp: gate_inv_def)
    show ?thesis using a b c by (simp add: gate_inv_def winners_def)
  next
    case win
    have all: "\<forall>p \<in> set ?xs. before_gate (snd p)" using inv win(3) by (simp add: gate_inv_def)
    have b: "length (filter ?P ?ys) = 1"
      using cnt win bw no_winner_before_gate [OF all] by simp
    have c: "\<forall>p \<in> set ?ys. snd p \<noteq> ReturnedAfterPhase1 NotRestarting"
      using inv win(2) mem wb by (fastforce simp: gate_inv_def)
    show ?thesis using win(4) b c by (simp add: gate_inv_def winners_def)
  next
    case lose
    have b: "length (filter ?P ?ys) = 1"
      using inv lose cnt bw by (simp add: gate_inv_def winners_def)
    have c: "\<forall>p \<in> set ?ys. snd p \<noteq> ReturnedAfterPhase1 NotRestarting"
      using inv lose(2,3) mem by (fastforce simp: gate_inv_def)
    show ?thesis using lose b c by (simp add: gate_inv_def winners_def)
  next
    case on
    have "\<not> before_gate (snd (callers c ! i))" using on(1) old wb by simp
    then have "restartState (shared c) \<noteq> NotRestarting" using inv nth by (auto simp: gate_inv_def)
    then have b: "length (filter ?P ?ys) = 1"
      using inv on cnt by (simp add: gate_inv_def winners_def)
    have c: "\<forall>p \<in> set ?ys. snd p \<noteq> ReturnedAfterPhase1 NotRestarting"
      using inv on(2) mem wb by (fastforce simp: gate_inv_def)
    show ?thesis using on(3) b c by (simp add: gate_inv_def winners_def)
  qed
qed

lemma gate_inv_step:
  assumes inv: "gate_inv c"
  shows "gate_inv (caller_step e i c)"
proof (cases "i < length (callers c)")
  case False
  then show ?thesis using inv by (simp add: caller_step_def)
next
  case True
  note i = this
  obtain tid pc where p: "callers c ! i = (tid, pc)" by (cases "callers c ! i")
  have same: "(callers c)[i := (tid, pc)] = callers c" using p i by (metis list_update_id)
  show ?thesis
  proof (cases pc)
    case AtEntry
    have "gate_inv \<lparr>shared = phase1 tid (shared c), callers = (callers c)[i := (tid, AtGate)]\<rparr>"
      using gate_inv_update [OF inv i, of pc AtGate "phase1 tid (shared c)" tid] p AtEntry
        restartState_phase1 [of tid "shared c"]
      by simp
    then show ?thesis using i p AtEntry by (simp add: caller_step_def)
  next
    case AtGate
    let ?g = "gate_step tid (shared c)"
    have "gate_inv \<lparr>shared = snd ?g, callers = (callers c)[i := (tid, fst ?g)]\<rparr>"
      using gate_inv_update [OF inv i, of pc "fst ?g" "snd ?g" tid] p AtGate
        gate_step_cases [of "shared c" tid]
      by (auto simp: Restarting_def NotRestarting_def)
    then show ?thesis using i p AtGate by (simp add: caller_step_def case_prod_beta)
  next
    case InPhases23
    let ?g = "phases23_step e tid (shared c)"
    have nth: "callers c ! i \<in> set (callers c)" using i by simp
    have nz: "restartState (shared c) \<noteq> NotRestarting"
      using inv nth p InPhases23 by (auto simp: gate_inv_def)
    have "gate_inv \<lparr>shared = snd ?g, callers = (callers c)[i := (tid, fst ?g)]\<rparr>"
      using gate_inv_update [OF inv i, of pc "fst ?g" "snd ?g" tid] p InPhases23
        phases23_step_cases [of e tid "shared c"] nz kicked_not_zero [of "restartState (shared c)"]
      by auto
    then show ?thesis using i p InPhases23 by (simp add: caller_step_def case_prod_beta)
  next
    case Completed
    then have "caller_step e i c = c" using i p same by (simp add: caller_step_def)
    then show ?thesis using inv by simp
  next
    case (Stopped x)
    then have "caller_step e i c = c" using i p same by (simp add: caller_step_def)
    then show ?thesis using inv by simp
  next
    case (ReturnedAfterPhase1 v)
    then have "caller_step e i c = c" using i p same by (simp add: caller_step_def)
    then show ?thesis using inv by simp
  qed
qed

lemma tids_caller_step: "map fst (callers (caller_step e i c)) = map fst (callers c)"
proof (cases "i < length (callers c)")
  case False
  then show ?thesis by (simp add: caller_step_def)
next
  case True
  then have "(map fst (callers c))[i := fst (callers c ! i)] = map fst (callers c)"
    by (metis length_map list_update_id nth_map)
  then show ?thesis using True
    by (simp add: caller_step_def Let_def case_prod_beta map_update)
qed

lemma gate_inv_run: "gate_inv c \<Longrightarrow> gate_inv (run_schedule e sched c)"
  unfolding run_schedule_def
  by (induction sched arbitrary: c) (simp_all add: gate_inv_step)

lemma tids_run: "map fst (callers (run_schedule e sched c)) = map fst (callers c)"
  unfolding run_schedule_def
  by (induction sched arbitrary: c) (simp_all add: tids_caller_step)

lemma reset_as_steps:
  "reset_network_stack_state e tid s =
     (case gate_step tid (phase1 tid s) of
        (pc, s1) \<Rightarrow> if pc = InPhases23 then phases23 e tid s1 else Inr s1)"
  by (simp add: reset_network_stack_state_def gate_step_def Let_def case_prod_beta)

lemma lone_caller_is_reset:
  "shared (run_schedule e [0, 0, 0] (initial_system s [tid])) =
     final_state (reset_network_stack_state e tid s)"
  by (simp add: reset_as_steps run_schedule_def initial_system_def caller_step_def Let_def
        case_prod_beta gate_step_def phases23_step_def final_state_def
        split: sum.splits)

section \<open>The gate under concurrent calls\<close>

text \<open>
  C1. Take any threads calling \<open>reset_network_stack_state\<close> on a state whose
  \<open>restartState\<close> is \<open>NotRestarting\<close>, and any schedule of their steps. At every
  moment at most one caller is past the gate; as soon as some caller has left the gate,
  exactly one is past it (the one whose exchange took \<open>NotRestarting\<close> to
  \<open>Restarting\<close>, which goes on to Phases 2 and 3), and every caller that has returned
  after Phase 1 observed a value other than \<open>NotRestarting\<close>.
\<close>

theorem exactly_one_caller_wins_the_gate:
  assumes "restartState s = NotRestarting"
    and "c = run_schedule e sched (initial_system s tids)"
  shows "winners c \<le> 1 \<and>
         ((\<exists>p \<in> set (callers c). \<not> before_gate (snd p)) \<longrightarrow> winners c = 1) \<and>
         (\<forall>p \<in> set (callers c). \<forall>v. snd p = ReturnedAfterPhase1 v \<longrightarrow> v \<noteq> NotRestarting) \<and>
         map fst (callers c) = tids"
proof -
  have inv: "gate_inv c" using assms gate_inv_run [OF gate_inv_initial] by simp
  have ids: "map fst (callers c) = tids"
    using assms(2) tids_run [of e sched "initial_system s tids"]
    by (simp add: initial_system_def comp_def)
  show ?thesis
  proof (cases "restartState (shared c) = NotRestarting")
    case True
    then have all: "\<forall>p \<in> set (callers c). before_gate (snd p)" using inv by (simp add: gate_inv_def)
    then have "winners c = 0" using no_winner_before_gate by (simp add: winners_def)
    then show ?thesis using all inv ids by (auto simp: gate_inv_def)
  next
    case False
    then show ?thesis using inv ids by (auto simp: gate_inv_def)
  qed
qed

text \<open>
  The network thread and two user threads: thread 5 wins, thread 1 observes
  \<open>Restarting\<close>, thread 6 arrives after the reset and observes
  \<open>Restarting | IpThreadKicked\<close>.
\<close>

theorem exactly_one_caller_wins_the_gate_witness:
  "restartState ex_two_users = NotRestarting \<and>
   callers (run_schedule ex_env [0, 1, 2, 1, 0, 1, 2] (initial_system ex_two_users [1, 5, 6])) =
     [(1, ReturnedAfterPhase1 Restarting), (5, Completed),
      (6, ReturnedAfterPhase1 (Restarting OR IpThreadKicked))] \<and>
   winners (run_schedule ex_env [0, 1, 2, 1, 0, 1, 2] (initial_system ex_two_users [1, 5, 6])) = 1"
proof -
  have w: "restartState ex_two_users = NotRestarting"
    by (simp add: ex_two_users_def ex_idle_def)
  have c: "callers (run_schedule ex_env [0, 1, 2, 1, 0, 1, 2] (initial_system ex_two_users [1, 5, 6])) =
     [(1, ReturnedAfterPhase1 Restarting), (5, Completed),
      (6, ReturnedAfterPhase1 (Restarting OR IpThreadKicked))]"
    by (simp add: run_schedule_def initial_system_def caller_step_def gate_step_def
          phases23_step_def ex_two_users_def model_defs example_defs)
  show ?thesis
    using w c exactly_one_caller_wins_the_gate [OF w refl, of ex_env "[0, 1, 2, 1, 0, 1, 2]" "[1, 5, 6]"]
    by simp
qed

section \<open>The socket epoch\<close>

text \<open>
  C2, amended. \<open>currentSocketEpoch\<close> is a 32-bit counter. Whatever the outcome of a call,
  the epoch is not decreased unless it was \<open>2^32 - 1\<close>; a call that does not return
  leaves it unchanged; a call that loses the gate returns, leaves it unchanged and makes no
  increment; a call that wins the gate and returns increments it exactly once, modulo
  \<open>2^32\<close>, after the test of the drain loop that read zero (no further test or sleep of
  the loop follows) and before the call of \<open>network_restart\<close>, which ends the run.
\<close>

theorem socket_epoch_incremented_once_modulo:
  assumes r: "r = reset_network_stack_state e tid s" and s': "s' = final_state r"
  shows "(currentSocketEpoch s \<noteq> - 1 \<longrightarrow> currentSocketEpoch s \<le> currentSocketEpoch s') \<and>
         (\<not> returned r \<longrightarrow> currentSocketEpoch s' = currentSocketEpoch s) \<and>
         (restartState s \<noteq> NotRestarting \<longrightarrow>
            returned r \<and> currentSocketEpoch s' = currentSocketEpoch s \<and>
            SocketEpochInc \<notin> set (new_events s s')) \<and>
         (returned r \<and> restartState s = NotRestarting \<longrightarrow>
            currentSocketEpoch s' = currentSocketEpoch s + 1 \<and>
            (\<exists>pre mid post.
               new_events s s' = pre @ [UserThreadCountLoad DrainTest 0] @ mid @
                                 [SocketEpochInc] @ post @ [NetworkRestart] \<and>
               SocketEpochInc \<notin> set pre \<and> SocketEpochInc \<notin> set mid \<and>
               SocketEpochInc \<notin> set post \<and> NetworkRestart \<notin> set pre \<and>
               NetworkRestart \<notin> set mid \<and> NetworkRestart \<notin> set post \<and>
               \<not> list_ex drain_event mid))"
proof -
  have lost: "returned r \<and> currentSocketEpoch s' = currentSocketEpoch s \<and>
              SocketEpochInc \<notin> set (new_events s s')"
    if l: "restartState s \<noteq> NotRestarting"
  proof -
    have ret: "r = Inr s'" using reset_lost [OF l, of e tid] r s' by (simp add: final_state_def)
    from reset_lost_Inr [OF l ret [unfolded r]] obtain p1 p2 where
      p: "trace s' = trace s @ p1 @ [CompareExchange (restartState s) False] @ p2"
        "list_all quiet_event p1" "list_all quiet_event p2"
      and ep: "currentSocketEpoch s' = currentSocketEpoch s"
      by blast
    have "new_events s s' = p1 @ [CompareExchange (restartState s) False] @ p2"
      using p(1) by (rule new_events_append)
    then show ?thesis using quiet_not_special [OF p(2)] quiet_not_special [OF p(3)] ep ret
      by (simp add: returned_def)
  qed
  have won: "currentSocketEpoch s' = currentSocketEpoch s + 1 \<and>
            (\<exists>pre mid post.
               new_events s s' = pre @ [UserThreadCountLoad DrainTest 0] @ mid @
                                 [SocketEpochInc] @ post @ [NetworkRestart] \<and>
               SocketEpochInc \<notin> set pre \<and> SocketEpochInc \<notin> set mid \<and>
               SocketEpochInc \<notin> set post \<and> NetworkRestart \<notin> set pre \<and>
               NetworkRestart \<notin> set mid \<and> NetworkRestart \<notin> set post \<and>
               \<not> list_ex drain_event mid)"
    if w: "restartState s = NotRestarting" and ret: "returned r"
  proof -
    have ret': "reset_network_stack_state e tid s = Inr s'"
      using ret r s' by (simp add: returned_def final_state_def split: sum.splits)
    from reset_won_Inr [OF w ret'] obtain p1 pre mid where
      p: "trace s' = trace s @ p1 @ [CompareExchange NotRestarting True] @ pre @
                           [UserThreadCountLoad DrainTest 0] @ mid @ phase3_events"
        "list_all quiet_event p1" "list_all quiet_event pre" "list_all quiet_event mid"
        "\<not> list_ex drain_event mid"
      and ep: "currentSocketEpoch s' = currentSocketEpoch s + 1"
      by blast
    let ?pre = "p1 @ [CompareExchange NotRestarting True] @ pre"
    let ?mid = "mid @ [UserThreadCountLoad AssertTest 0, Log ''Freeing heap memory.'' [],
                       HeapFreeAll, FreeBufferManagerMemory]"
    let ?post = "[Reinit CriticalSection, Reinit Suspend, Reinit ListLock,
                  Log ''Restarting the network stack.'' [], RestartStateOr IpThreadKicked]"
    have n: "new_events s s' = ?pre @ [UserThreadCountLoad DrainTest 0] @ ?mid @
                                 [SocketEpochInc] @ ?post @ [NetworkRestart]"
      using p(1) by (simp add: new_events_def phase3_events_def)
    have "SocketEpochInc \<notin> set ?pre \<and> SocketEpochInc \<notin> set ?mid \<and>
               SocketEpochInc \<notin> set ?post \<and> NetworkRestart \<notin> set ?pre \<and>
               NetworkRestart \<notin> set ?mid \<and> NetworkRestart \<notin> set ?post \<and>
               \<not> list_ex drain_event ?mid"
      using quiet_not_special [OF p(2)] quiet_not_special [OF p(3)] quiet_not_special [OF p(4)] p(5)
      by simp
    with n ep show ?thesis by blast
  qed
  have notret: "currentSocketEpoch s' = currentSocketEpoch s" if nr: "\<not> returned r"
  proof -
    from nr obtain x t where x: "r = Inl (x, t)"
      by (cases r) (auto simp: returned_def)
    then have t: "s' = t" using s' by (simp add: final_state_def)
    have w: "restartState s = NotRestarting" using lost nr by blast
    have "phases23 e tid (emit (CompareExchange NotRestarting True)
                             ((phase1 tid s)\<lparr>restartState := Restarting\<rparr>)) = Inl (x, s')"
      using reset_won [OF w, of e tid] r x t by simp
    from phases23_Inl [OF this] show ?thesis
      using gate_won_fields(1) [of tid s] by (simp add: quiet_step_def)
  qed
  have mono: "currentSocketEpoch s \<le> currentSocketEpoch s'" if "currentSocketEpoch s \<noteq> - 1"
  proof (cases "returned r \<and> restartState s = NotRestarting")
    case True
    then show ?thesis using won word32_le_succ [OF that] by simp
  next
    case False
    then show ?thesis using lost notret by auto
  qed
  show ?thesis using lost won notret mono by blast
qed


text \<open>The idle compartment, reset by the network thread: the epoch goes from 7 to 8.\<close>

theorem socket_epoch_incremented_once_modulo_witness:
  "returned (reset_network_stack_state ex_env 1 ex_idle) \<and>
   restartState ex_idle = NotRestarting \<and>
   currentSocketEpoch ex_idle = 7 \<and>
   currentSocketEpoch (final_state (reset_network_stack_state ex_env 1 ex_idle)) = 8"
  using socket_epoch_incremented_once_modulo [where e = ex_env and tid = 1 and s = ex_idle, OF refl refl]
  by (simp add: ex_idle_run returned_def final_state_def) (simp add: ex_idle_def)

text \<open>
  C2 as stated fails where the counter is at its last value: the run of line 314 takes the
  epoch from \<open>0xFFFFFFFF\<close> to 0.
\<close>

theorem socket_epoch_wraps_to_zero:
  "returned (reset_network_stack_state ex_env 1 ex_last_epoch) \<and>
   currentSocketEpoch ex_last_epoch = 0xFFFFFFFF \<and>
   currentSocketEpoch (final_state (reset_network_stack_state ex_env 1 ex_last_epoch)) = 0"
  by (simp add: model_defs example_defs ex_last_epoch_def returned_def final_state_def)

section \<open>The restart state in Phase 3\<close>

text \<open>
  C7. In every run of \<open>reset_network_stack_state\<close> that wins the gate and returns, the
  run ends with the \<open>|=\<close> that sets \<open>IpThreadKicked\<close> followed by the call of
  \<open>network_restart\<close>, which is not called before; the only other access of the run to
  \<open>restartState\<close> is the exchange that set \<open>Restarting\<close>; and on return
  \<open>restartState\<close> is \<open>Restarting | IpThreadKicked\<close>, with the \<open>Restarting\<close> bit
  set.
\<close>

theorem kicked_before_restart_and_restarting_kept:
  assumes r: "reset_network_stack_state e tid s = Inr s'" and w: "restartState s = NotRestarting"
  shows "(\<exists>pre. new_events s s' = pre @ [RestartStateOr IpThreadKicked, NetworkRestart] \<and>
                NetworkRestart \<notin> set pre \<and>
                filter restart_state_event pre = [CompareExchange NotRestarting True]) \<and>
         restartState s' = Restarting OR IpThreadKicked \<and>
         restartState s' AND Restarting = Restarting"
proof -
  from reset_won_Inr [OF w r] obtain p1 pre mid where
    p: "trace s' = trace s @ p1 @ [CompareExchange NotRestarting True] @ pre @
                         [UserThreadCountLoad DrainTest 0] @ mid @ phase3_events"
      "list_all quiet_event p1" "list_all quiet_event pre" "list_all quiet_event mid"
    and rs: "restartState s' = Restarting OR IpThreadKicked"
    by blast
  let ?pre = "p1 @ [CompareExchange NotRestarting True] @ pre @
              [UserThreadCountLoad DrainTest 0] @ mid @
              [UserThreadCountLoad AssertTest 0, Log ''Freeing heap memory.'' [], HeapFreeAll,
               FreeBufferManagerMemory, SocketEpochInc, Reinit CriticalSection, Reinit Suspend,
               Reinit ListLock, Log ''Restarting the network stack.'' []]"
  have n: "new_events s s' = ?pre @ [RestartStateOr IpThreadKicked, NetworkRestart]"
    using p(1) by (simp add: new_events_def phase3_events_def)
  have a: "NetworkRestart \<notin> set ?pre"
    using quiet_not_special [OF p(2)] quiet_not_special [OF p(3)] quiet_not_special [OF p(4)]
    by simp
  have b: "filter restart_state_event ?pre = [CompareExchange NotRestarting True]"
    using quiet_not_restart_state [OF p(2)] quiet_not_restart_state [OF p(3)]
      quiet_not_restart_state [OF p(4)]
    by simp
  from n a b have "\<exists>pre. new_events s s' = pre @ [RestartStateOr IpThreadKicked, NetworkRestart] \<and>
                NetworkRestart \<notin> set pre \<and>
                filter restart_state_event pre = [CompareExchange NotRestarting True]"
    by blast
  then show ?thesis using rs restart_bits by simp
qed

text \<open>The idle compartment, reset by the network thread: the restart state ends at 3.\<close>

theorem kicked_before_restart_and_restarting_kept_witness:
  "reset_network_stack_state ex_env 1 ex_idle =
     Inr (final_state (reset_network_stack_state ex_env 1 ex_idle)) \<and>
   restartState ex_idle = NotRestarting \<and>
   restartState (final_state (reset_network_stack_state ex_env 1 ex_idle)) = 3"
proof -
  have a: "reset_network_stack_state ex_env 1 ex_idle =
             Inr (final_state (reset_network_stack_state ex_env 1 ex_idle))"
    by (simp add: ex_idle_run final_state_def)
  have b: "restartState ex_idle = NotRestarting" by (simp add: ex_idle_def)
  show ?thesis
    using a b kicked_before_restart_and_restarting_kept [OF a b]
    by (simp add: Restarting_def IpThreadKicked_def)
qed

section \<open>A call during a reset\<close>

text \<open>
  C4, amended. A call of \<open>reset_network_stack_state\<close> while \<open>restartState\<close> is not
  \<open>NotRestarting\<close> returns after Phase 1. It changes two variables at most:
  \<open>userThreadCount\<close>, decremented when the caller is a user thread, and the list lock,
  unlocked when the caller holds it. The epoch, the restart state, the ring and the other
  locks are unchanged, and the call makes no other access than log lines, that decrement,
  that unlock and the failed exchange: no lock is upgraded, destroyed or reinitialised.
\<close>

theorem losing_call_changes_only_count_and_list_lock:
  assumes l: "restartState s \<noteq> NotRestarting" and s': "s' = final_state (reset_network_stack_state e tid s)"
  shows "reset_network_stack_state e tid s = Inr s' \<and>
         s'\<lparr>trace := trace s\<rparr> =
           s\<lparr>userThreadCount :=
                (if tid \<noteq> networkThreadID s then userThreadCount s - 1 else userThreadCount s),
              sealedSocketsListLock :=
                (if get_owner_thread_id (sealedSocketsListLock s) = tid
                 then flaglock_unlock (sealedSocketsListLock s)
                 else sealedSocketsListLock s)\<rparr> \<and>
         list_all phase1_event (new_events s s')"
proof -
  have r: "reset_network_stack_state e tid s = Inr s'"
    using reset_lost [OF l, of e tid] s' by (simp add: final_state_def)
  have v: "s' = gate_lost tid (restartState s)
                  (emit (CompareExchange (restartState s) False) (phase1 tid s))"
    using reset_lost [OF l, of e tid] r by simp
  have f: "s'\<lparr>trace := trace s\<rparr> =
           s\<lparr>userThreadCount :=
                (if tid \<noteq> networkThreadID s then userThreadCount s - 1 else userThreadCount s),
              sealedSocketsListLock :=
                (if get_owner_thread_id (sealedSocketsListLock s) = tid
                 then flaglock_unlock (sealedSocketsListLock s)
                 else sealedSocketsListLock s)\<rparr>"
    unfolding v by (simp add: gate_lost_def phase1_def Let_def emit_def log_def)
  have t: "list_all phase1_event (new_events s s')"
    unfolding v by (simp add: gate_lost_def phase1_def Let_def emit_def log_def new_events_def)
  show ?thesis using r f t by simp
qed

text \<open>The network thread calling during a reset, not holding the list lock: nothing changes.\<close>

theorem losing_call_changes_only_count_and_list_lock_witness:
  "restartState ex_restarting \<noteq> NotRestarting \<and>
   reset_network_stack_state ex_env 1 ex_restarting =
     Inr (ex_restarting\<lparr>trace := [Log ''Network thread TCP/IP stack error handler called!'' [],
                                  CompareExchange Restarting False]\<rparr>)"
proof -
  have l: "restartState ex_restarting \<noteq> NotRestarting"
    by (simp add: ex_restarting_def ex_idle_def Restarting_def NotRestarting_def)
  show ?thesis
    using l losing_call_changes_only_count_and_list_lock [OF l refl, of ex_env 1]
    by (simp add: model_defs example_defs ex_restarting_def)
qed

text \<open>
  C4 as stated fails for a user thread: the call made during a reset takes
  \<open>userThreadCount\<close> from 2 to 1 (line 114).
\<close>

theorem losing_user_thread_decrements_count:
  "restartState ex_restarting \<noteq> NotRestarting \<and>
   userThreadCount ex_restarting = 2 \<and>
   reset_network_stack_state ex_env 5 ex_restarting =
     Inr (ex_restarting\<lparr>userThreadCount := 1,
            trace := [Log ''User thread TCP/IP stack error handler called!'' [],
                      UserThreadCountDec, CompareExchange Restarting False]\<rparr>)"
  by (simp add: model_defs example_defs ex_restarting_def)

section \<open>The walk over the ring\<close>

text \<open>
  C3, what the code does. If some node of the ring is reached through an untagged pointer
  (its lock capability is invalid), a call that wins the gate does not return: the walk
  traps at that node, and the ring is as it was, not reset.
\<close>

theorem untagged_cell_stops_the_reset:
  assumes n: "n \<in> set (sealedSockets s)" and u: "\<not> is_valid (cell n)"
    and w: "restartState s = NotRestarting"
  shows "\<not> returned (reset_network_stack_state e tid s) \<and>
         sealedSockets (final_state (reset_network_stack_state e tid s)) = sealedSockets s"
proof -
  let ?g = "emit (CompareExchange NotRestarting True) ((phase1 tid s)\<lparr>restartState := Restarting\<rparr>)"
  have g: "sealedSockets ?g = sealedSockets s"
    by (simp add: phase1_def Let_def emit_def log_def)
  have r: "reset_network_stack_state e tid s = phases23 e tid ?g" by (rule reset_won [OF w])
  show ?thesis
  proof (cases "phase2_list_lock e tid ?g")
    case (Inl y)
    then have "sealedSockets (snd y) = sealedSockets ?g"
      by (auto simp: phase2_list_lock_def Let_def emit_def log_def split: option.splits)
    then show ?thesis using Inl g r
      by (simp add: phases23_def andThen_def returned_def final_state_def)
  next
    case (Inr s1)
    then have s1: "sealedSockets s1 = sealedSockets s" using g
      by (auto simp: phase2_list_lock_def Let_def emit_def log_def split: option.splits)
    let ?s1 = "log ''Setting socket locks for destruction and destroying event groups.'' [] s1"
    have "n \<in> set (sealedSockets ?s1)" using n s1 by (simp add: log_def emit_def)
    from walk_traps_at_untagged_cell [OF this u, of e ?s1] obtain s2 where
      "walk e (sealedSockets ?s1) ?s1 = Inl (CapabilityTrap, s2)" "sealedSockets s2 = sealedSockets ?s1"
      by blast
    then have "phase2_destroy e s1 = Inl (CapabilityTrap, s2)" "sealedSockets s2 = sealedSockets s"
      using s1 by (simp_all add: phase2_destroy_def Let_def log_def emit_def)
    then show ?thesis using Inr r
      by (simp add: phases23_def andThen_def returned_def final_state_def)
  qed
qed

text \<open>
  A ring of two nodes, the first reached through an untagged pointer: the run logs
  "Ignoring corrupted socket lock" and traps; the second node is not visited.
\<close>

theorem untagged_cell_stops_the_reset_witness:
  "ex_poisoned_node \<in> set (sealedSockets ex_poisoned_ring) \<and> \<not> is_valid (cell ex_poisoned_node) \<and>
   restartState ex_poisoned_ring = NotRestarting \<and>
   reset_network_stack_state ex_env 1 ex_poisoned_ring =
     Inl (CapabilityTrap,
          ex_poisoned_ring\<lparr>restartState := Restarting,
            sealedSocketsListLock := \<lparr>lock_owner = 1, lock_destruct = True\<rparr>,
            trace := [Log ''Network thread TCP/IP stack error handler called!'' [],
                      CompareExchange NotRestarting True,
                      Log ''Resetting the network stack.'' [],
                      Log ''Acquiring the sealed sockets lock.'' [],
                      Lock ListLock,
                      Log ''Setting the sealed sockets list lock for destruction.'' [],
                      UpgradeForDestruction ListLock,
                      Log ''Setting socket locks for destruction and destroying event groups.'' [],
                      Log ''Ignoring corrupted socket lock {}.''
                        [ArgCap (member_ptr ex_untagged 16)]]\<rparr>)"
proof -
  have n: "ex_poisoned_node \<in> set (sealedSockets ex_poisoned_ring)"
    by (simp add: ex_poisoned_ring_def)
  have u: "\<not> is_valid (cell ex_poisoned_node)"
    by (simp add: ex_poisoned_node_def ex_untagged_def is_valid_def)
  have w: "restartState ex_poisoned_ring = NotRestarting"
    by (simp add: ex_poisoned_ring_def ex_idle_def)
  show ?thesis
    using n u w untagged_cell_stops_the_reset [OF n u w, of ex_env 1]
    by (simp add: model_defs example_defs ex_poisoned_ring_def ex_poisoned_node_def
          ex_healthy_node_def)
qed

text \<open>
  C9, what the code does at a node with an invalid capability. When the lock capability is
  invalid the walk logs it and traps at line 219, before the test of the socket: no event
  group is destroyed and \<open>cell_next\<close> is not followed. When the node is reachable and
  its socket capability is invalid, the lock is upgraded for destruction, the socket is
  logged as ignored and the walk goes on with the rest of the ring.
\<close>

theorem walk_at_node_with_invalid_capability:
  "(\<not> is_valid (cell n) \<longrightarrow>
      walk e (n # ns) s =
        Inl (CapabilityTrap,
             log ''Ignoring corrupted socket lock {}.''
               [ArgCap (member_ptr (cell n) (socketLockOffset e))] s)) \<and>
   (is_valid (cell n) \<and> \<not> is_valid (socket n) \<longrightarrow>
      walk e (n # ns) s =
        walk e ns
          (log ''Ignoring corrupted socket {}.'' [ArgCap (socket n)]
             (emit (UpgradeForDestruction
                      (SocketLock (cap_address (member_ptr (cell n) (socketLockOffset e)))))
                (log ''Destroying socket lock {}.''
                   [ArgCap (member_ptr (cell n) (socketLockOffset e))] s))))"
  by (simp add: visit_lock_def visit_socket_def Let_def is_valid_def member_ptr_def)

text \<open>
  A node with an invalid lock capability and valid socket and event group, and a node with
  a valid lock capability and an invalid socket.
\<close>

theorem walk_at_node_with_invalid_capability_witness:
  "\<not> is_valid (cell ex_poisoned_node) \<and>
   is_valid (socket ex_poisoned_node) \<and> is_valid (xEventGroup ex_poisoned_node) \<and>
   walk ex_env [ex_poisoned_node, ex_healthy_node] ex_idle =
     Inl (CapabilityTrap,
          ex_idle\<lparr>trace := [Log ''Ignoring corrupted socket lock {}.''
                               [ArgCap (member_ptr ex_untagged 16)]]\<rparr>) \<and>
   is_valid (cell ex_closed_node) \<and> \<not> is_valid (socket ex_closed_node) \<and>
   walk ex_env [ex_closed_node] ex_idle =
     Inr (ex_idle\<lparr>trace := [Log ''Destroying socket lock {}.'' [ArgCap (member_ptr (ex_cap 1024) 16)],
                              UpgradeForDestruction (SocketLock 1040),
                              Log ''Ignoring corrupted socket {}.'' [ArgCap ex_untagged]]\<rparr>)"
  using walk_at_node_with_invalid_capability [of ex_poisoned_node ex_env "[ex_healthy_node]" ex_idle]
    walk_at_node_with_invalid_capability [of ex_closed_node ex_env "[]" ex_idle]
  by (simp add: model_defs example_defs ex_poisoned_node_def ex_closed_node_def)

section \<open>The classification of a trap as thread exit\<close>

text \<open>
  C5. The handler treats a trap as the exit of a thread, that is, it returns
  \<open>ForceUnwind\<close> with the frame untouched and the state untouched but for the log line
  "Thread exit", if and only if the cause is a CHERI fault whose exception code is a tag
  violation, the faulting register is CRA, the address held in CRA is null, and the address
  of the stack pointer equals \<open>top()\<close> of the stack capability. (The stack grows
  downwards: the top of the region is where the empty stack starts.)
\<close>

theorem thread_exit_iff_four_conditions:
  "compartment_error_handler e threadID framePtr frame mcause mtval s =
     Inr (ForceUnwind, frame,
          log ''Thread exit CSP={}, PCC={}''
            [ArgCap (get_register_value_tmpl frame CSP), ArgCap (pcc frame)] s)
   \<longleftrightarrow>
   (mcause = MCAUSE_CHERI \<and>
    fst (extract_cheri_mtval mtval) = TagViolation \<and>
    snd (extract_cheri_mtval mtval) = CRA \<and>
    cap_address (get_register_value_tmpl frame CRA) = 0 \<and>
    cap_address (get_register_value_tmpl frame CSP) = cap_top (get_register_value_tmpl frame CSP))"
proof
  assume rhs: "mcause = MCAUSE_CHERI \<and>
    fst (extract_cheri_mtval mtval) = TagViolation \<and>
    snd (extract_cheri_mtval mtval) = CRA \<and>
    cap_address (get_register_value_tmpl frame CRA) = 0 \<and>
    cap_address (get_register_value_tmpl frame CSP) = cap_top (get_register_value_tmpl frame CSP)"
  then have "is_thread_exit frame mtval"
    by (simp add: is_thread_exit_iff)
  then show "compartment_error_handler e threadID framePtr frame mcause mtval s =
     Inr (ForceUnwind, frame,
          log ''Thread exit CSP={}, PCC={}''
            [ArgCap (get_register_value_tmpl frame CSP), ArgCap (pcc frame)] s)"
    using rhs by (simp add: compartment_error_handler_def)
next
  let ?out = "Inr (ForceUnwind, frame,
          log ''Thread exit CSP={}, PCC={}''
            [ArgCap (get_register_value_tmpl frame CSP), ArgCap (pcc frame)] s) :: handler_result"
  assume lhs: "compartment_error_handler e threadID framePtr frame mcause mtval s = ?out"
  have c: "mcause = MCAUSE_CHERI"
  proof (rule ccontr)
    assume "mcause \<noteq> MCAUSE_CHERI"
    then have "log ''Stack length is {}.''
                 [ArgWord (cap_length (slot_ptr framePtr (the (get_register_value CSP))))]
                 (log ''Unhandled error {} at {} by thread {}''
                    [ArgWord mcause, ArgCap (pcc frame), ArgWord (ucast threadID)] s) =
               log ''Thread exit CSP={}, PCC={}''
                 [ArgCap (get_register_value_tmpl frame CSP), ArgCap (pcc frame)] s"
      using lhs by (simp add: compartment_error_handler_def Let_def)
    from arg_cong [OF this, of trace] show False
      by (simp add: log_def emit_def)
  qed
  have x: "is_thread_exit frame mtval"
  proof (rule ccontr)
    assume n: "\<not> is_thread_exit frame mtval"
    show False
    proof (cases "fst (extract_cheri_mtval mtval) = CauseCode_None")
      case True
      then show False using lhs c n by (simp add: compartment_error_handler_def)
    next
      case False
      then have "handle_corruption e threadID framePtr frame mtval s = ?out"
        using lhs c n by (simp add: compartment_error_handler_def)
      from handle_corruption_Inr [OF this] show False
        by (auto simp: log_def emit_def)
    qed
  qed
  from x c show "mcause = MCAUSE_CHERI \<and>
    fst (extract_cheri_mtval mtval) = TagViolation \<and>
    snd (extract_cheri_mtval mtval) = CRA \<and>
    cap_address (get_register_value_tmpl frame CRA) = 0 \<and>
    cap_address (get_register_value_tmpl frame CSP) = cap_top (get_register_value_tmpl frame CSP)"
    by (simp add: is_thread_exit_iff)
qed

text \<open>A tag violation on CRA, with a null CRA and the stack pointer at the top of its stack.\<close>

theorem thread_exit_iff_four_conditions_witness:
  "compartment_error_handler ex_env 1 (ex_cap 8800) ex_exit_frame MCAUSE_CHERI 34 ex_idle =
     Inr (ForceUnwind, ex_exit_frame,
          log ''Thread exit CSP={}, PCC={}''
            [ArgCap (get_register_value_tmpl ex_exit_frame CSP), ArgCap (pcc ex_exit_frame)] ex_idle) \<and>
   fst (extract_cheri_mtval 34) = TagViolation \<and> snd (extract_cheri_mtval 34) = CRA \<and>
   cap_address (get_register_value_tmpl ex_exit_frame CRA) = 0 \<and>
   cap_address (get_register_value_tmpl ex_exit_frame CSP) = 9216 \<and>
   cap_top (get_register_value_tmpl ex_exit_frame CSP) = 9216"
  using thread_exit_iff_four_conditions [of ex_env 1 "ex_cap 8800" ex_exit_frame MCAUSE_CHERI 34 ex_idle]
  by (simp add: extract_cheri_mtval_def TagViolation_def CRA_def CSP_def get_register_value_tmpl_def
        ex_exit_frame_def ex_untagged_def cap_top_def)

section \<open>Faults that are not CHERI faults\<close>



section \<open>The frame of the restarted network thread\<close>

text \<open>
  C6, what the code does. When the handler returns from a corruption on the network thread
  it returns \<open>InstallContext\<close> and a frame that differs from the one it was given in
  \<open>pcc\<close> alone, now \<open>ip_thread_entry\<close>. The saved stack pointer is the one the frame
  had: lines 400 to 405 build a local \<open>Capability\<close> from the pointer to the CSP slot and
  move the address of that local object to its \<open>base()\<close>; nothing is stored to the slot.
\<close>

theorem network_thread_corruption_rewrites_pcc_only:
  assumes r: "compartment_error_handler e threadID framePtr frame mcause mtval s = Inr (b, frame', s')"
    and c: "mcause = MCAUSE_CHERI" and x: "\<not> is_thread_exit frame mtval"
    and n: "fst (extract_cheri_mtval mtval) \<noteq> CauseCode_None"
    and t: "threadID = networkThreadID s"
  shows "b = InstallContext \<and> frame' = frame\<lparr>pcc := ip_thread_entry e\<rparr> \<and>
         get_register_value_tmpl frame' CSP = get_register_value_tmpl frame CSP"
proof -
  from r c x n have "handle_corruption e threadID framePtr frame mtval s = Inr (b, frame', s')"
    by (simp add: compartment_error_handler_def)
  from handle_corruption_Inr [OF this] t show ?thesis
    by (simp add: get_register_value_tmpl_def)
qed

text \<open>
  A bounds violation on register 10, taken by the network thread with its stack pointer at
  9000 in a stack from 8192 to 9216: the frame comes back with the stack pointer at 9000.
\<close>

theorem network_thread_corruption_rewrites_pcc_only_witness:
  "handler_returned (compartment_error_handler ex_env 1 (ex_cap 8800) ex_frame MCAUSE_CHERI 321 ex_idle) =
     Some (InstallContext, ex_frame\<lparr>pcc := ex_cap 4096\<rparr>) \<and>
   \<not> is_thread_exit ex_frame 321 \<and> fst (extract_cheri_mtval 321) \<noteq> CauseCode_None \<and>
   (1 :: 16 word) = networkThreadID ex_idle \<and>
   cap_address (get_register_value_tmpl (ex_frame\<lparr>pcc := ex_cap 4096\<rparr>) CSP) = 9000 \<and>
   cap_base (get_register_value_tmpl ex_frame CSP) = 8192 \<and>
   cap_top (get_register_value_tmpl ex_frame CSP) = 9216"
proof -
  have t: "(1 :: 16 word) = networkThreadID ex_idle" by (simp add: ex_idle_def)
  have x: "\<not> is_thread_exit ex_frame 321"
    by (simp add: is_thread_exit_iff extract_cheri_mtval_def TagViolation_def)
  have c: "fst (extract_cheri_mtval 321) \<noteq> CauseCode_None"
    by (simp add: extract_cheri_mtval_def CauseCode_None_def)
  obtain b f u where r: "compartment_error_handler ex_env 1 (ex_cap 8800) ex_frame MCAUSE_CHERI 321 ex_idle = Inr (b, f, u)"
    by (simp add: compartment_error_handler_def handle_corruption_def x c extract_cheri_mtval_def
          get_register_value_def CZR_def CA5_def PCC_def CauseCode_None_def reinstall_ip_thread_def
          model_defs example_defs)
  have "b = InstallContext \<and> f = ex_frame\<lparr>pcc := ip_thread_entry ex_env\<rparr>"
    using network_thread_corruption_rewrites_pcc_only [OF r refl x c t] by simp
  then show ?thesis using r t x c
    by (simp add: handler_returned_def ex_env_def get_register_value_tmpl_def CSP_def
          ex_frame_def cap_top_def)
qed

section \<open>The frame outside the restart of the network thread\<close>

text \<open>
  C10. Whenever the handler returns and the fault is not a corruption on the network thread
  (a CHERI fault that is neither a thread exit nor an unwind with cause code None, taken by
  the thread whose id is \<open>networkThreadID\<close>), the frame it returns is the frame it was
  given: no register, no stack pointer and no program counter is written.
\<close>

theorem frame_unmodified_unless_network_thread_corruption:
  assumes r: "compartment_error_handler e threadID framePtr frame mcause mtval s = Inr (b, frame', s')"
    and n: "\<not> (mcause = MCAUSE_CHERI \<and> \<not> is_thread_exit frame mtval \<and>
               fst (extract_cheri_mtval mtval) \<noteq> CauseCode_None \<and> threadID = networkThreadID s)"
  shows "frame' = frame"
proof (cases "mcause = MCAUSE_CHERI \<and> \<not> is_thread_exit frame mtval \<and>
               fst (extract_cheri_mtval mtval) \<noteq> CauseCode_None")
  case True
  then have u: "threadID \<noteq> networkThreadID s" using n by blast
  from True r have "handle_corruption e threadID framePtr frame mtval s = Inr (b, frame', s')"
    by (simp add: compartment_error_handler_def)
  from handle_corruption_Inr [OF this] u show ?thesis by simp
next
  case False
  then show ?thesis using r
    by (auto simp: compartment_error_handler_def Let_def split: if_splits)
qed

text \<open>A bounds violation on register 10, taken by user thread 5.\<close>

theorem frame_unmodified_unless_network_thread_corruption_witness:
  "handler_returned (compartment_error_handler ex_env 5 (ex_cap 8800) ex_frame MCAUSE_CHERI 321 ex_idle) =
     Some (ForceUnwind, ex_frame) \<and>
   \<not> is_thread_exit ex_frame 321 \<and> fst (extract_cheri_mtval 321) \<noteq> CauseCode_None \<and>
   (5 :: 16 word) \<noteq> networkThreadID ex_idle"
proof -
  have n: "(5 :: 16 word) \<noteq> networkThreadID ex_idle" by (simp add: ex_idle_def)
  have x: "\<not> is_thread_exit ex_frame 321"
    by (simp add: is_thread_exit_iff extract_cheri_mtval_def TagViolation_def)
  have c: "fst (extract_cheri_mtval 321) \<noteq> CauseCode_None"
    by (simp add: extract_cheri_mtval_def CauseCode_None_def)
  obtain b f t where r: "compartment_error_handler ex_env 5 (ex_cap 8800) ex_frame MCAUSE_CHERI 321 ex_idle = Inr (b, f, t)"
    and b: "b = ForceUnwind"
    by (simp add: compartment_error_handler_def handle_corruption_def x c extract_cheri_mtval_def
          get_register_value_def CZR_def CA5_def PCC_def CauseCode_None_def
          model_defs example_defs)
  have "f = ex_frame"
    using frame_unmodified_unless_network_thread_corruption [OF r] n by simp
  then show ?thesis using r b n x c by (simp add: handler_returned_def)
qed

end
